theory Spec2Isabelle
  imports
    Complex_Main
    "HOL-Library.Char_ord"
    "HOL-Library.List_Lexorder"
    "HOL-Library.Multiset"
begin

section \<open>Values, rows and the library the pipeline calls\<close>

text \<open>
  This theory embeds the ingestion pipeline of \<^verbatim>\<open>genomic_data_upload.py\<close>:
  \<^verbatim>\<open>standardize_value\<close>, \<^verbatim>\<open>generate_record_hash\<close>, \<^verbatim>\<open>validate_and_clean_data\<close>,
  \<^verbatim>\<open>verify_upload\<close>, \<^verbatim>\<open>upload_to_database\<close>, \<^verbatim>\<open>process_file_chunk\<close> and
  \<^verbatim>\<open>parallel_upload\<close>.

  A cell of a DataFrame is a Python object. A float is a finite number, an infinity or
  NaN; the finite ones are read as the real number they denote, which is exact for the
  comparisons and the truncation the pipeline performs. Text is ASCII and is a HOL
  \<open>string\<close>. A timestamp is a count of microseconds.
\<close>

datatype pyfloat = Finite real | PosInf | NegInf | NaN

datatype pyval =
    PNone
  | PBool bool
  | PInt int
  | PFloat pyfloat
  | PStr string
  | PTimestamp nat

text \<open>The exceptions that the modelled code can meet.\<close>

datatype py_error = ValueError | TypeError | OverflowError | DatabaseError

text \<open>
  A row (a pandas Series, or a dict of one record) is an ordered list of
  (column label, cell) pairs; a DataFrame is the list of its rows, in index order.
  The conversions between column dtypes that pandas performs are not modelled: a cell
  keeps the Python object that the code put there.
\<close>

type_synonym row = "(string \<times> pyval) list"
type_synonym dataframe = "row list"

text \<open>
  What the code takes from outside the repository is gathered in one record and passed
  to every function that needs it:
  \<^item> \<open>str_float\<close>, \<open>str_timestamp\<close>: \<^verbatim>\<open>str(v)\<close> for a float and for a timestamp;
  \<^item> \<open>float_of_str\<close>: \<^verbatim>\<open>float(s)\<close> for a string, \<open>None\<close> when it raises ValueError;
  \<^item> \<open>float_of_int\<close>: \<^verbatim>\<open>float(i)\<close> for an integer, \<open>None\<close> when it raises
    OverflowError;
  \<^item> \<open>repr_items\<close>: \<^verbatim>\<open>str(...)\<close> of a list of (label, cell) tuples;
  \<^item> \<open>md5_hex\<close>: \<^verbatim>\<open>hashlib.md5(s.encode()).hexdigest()\<close>;
  \<^item> \<open>sample\<close>: \<^verbatim>\<open>df.sample(n=k)\<close>, the random choice of \<open>k\<close> rows;
  \<^item> \<open>db_accepts\<close>: whether the database accepts the insertion of a batch of rows
    into a table with the given rows (constraints, column types, connection);
  \<^item> \<open>db_select_count\<close>: the answer to the query
    \<^verbatim>\<open>SELECT COUNT(*) ... WHERE ...\<close> that \<^verbatim>\<open>verify_upload\<close> builds from a record,
    over the rows of the table; \<open>None\<close> when the query raises.
\<close>

record pylib =
  str_float :: "pyfloat \<Rightarrow> string"
  str_timestamp :: "nat \<Rightarrow> string"
  float_of_str :: "string \<Rightarrow> pyfloat option"
  float_of_int :: "int \<Rightarrow> pyfloat option"
  repr_items :: "row \<Rightarrow> string"
  md5_hex :: "string \<Rightarrow> string"
  sample :: "dataframe \<Rightarrow> nat \<Rightarrow> dataframe"
  db_accepts :: "string \<Rightarrow> dataframe \<Rightarrow> dataframe \<Rightarrow> bool"
  db_select_count :: "dataframe \<Rightarrow> row \<Rightarrow> nat option"

subsection \<open>String operations of Python\<close>

definition upper_char :: "char \<Rightarrow> char" where
  "upper_char c =
     (if CHR ''a'' \<le> c \<and> c \<le> CHR ''z'' then char_of (of_char c - (32::nat)) else c)"

definition lower_char :: "char \<Rightarrow> char" where
  "lower_char c =
     (if CHR ''A'' \<le> c \<and> c \<le> CHR ''Z'' then char_of (of_char c + (32::nat)) else c)"

definition py_upper :: "string \<Rightarrow> string" where
  "py_upper s = map upper_char s"

definition py_lower :: "string \<Rightarrow> string" where
  "py_lower s = map lower_char s"

text \<open>\<^verbatim>\<open>old in s\<close> for strings: \<open>old\<close> occurs in \<open>s\<close> as a contiguous block.\<close>

fun starts_with :: "string \<Rightarrow> string \<Rightarrow> bool" where
  "starts_with [] s = True"
| "starts_with (a # as) [] = False"
| "starts_with (a # as) (c # cs) = (a = c \<and> starts_with as cs)"

fun py_in :: "string \<Rightarrow> string \<Rightarrow> bool" where
  "py_in old [] = (old = [])"
| "py_in old (c # cs) = (starts_with old (c # cs) \<or> py_in old cs)"

text \<open>
  \<^verbatim>\<open>s.replace(old, new)\<close> for a non-empty \<open>old\<close>: the text is scanned from the left,
  every occurrence found is replaced and the scan goes on behind it.
\<close>

function py_replace :: "string \<Rightarrow> string \<Rightarrow> string \<Rightarrow> string" where
  "py_replace old new s =
     (if s = [] then []
      else if old \<noteq> [] \<and> starts_with old s
           then new @ py_replace old new (drop (length old) s)
           else hd s # py_replace old new (tl s))"
  by pat_completeness auto
termination
  by (relation "measure (\<lambda>(old, new, s). length s)") auto

declare py_replace.simps [simp del]

text \<open>\<^verbatim>\<open>s.strip()\<close>: the ASCII whitespace of Python is removed from both ends.\<close>

definition is_space :: "char \<Rightarrow> bool" where
  "is_space c =
     (let n = (of_char c :: nat) in (9 \<le> n \<and> n \<le> 13) \<or> (28 \<le> n \<and> n \<le> 32))"

definition py_strip :: "string \<Rightarrow> string" where
  "py_strip s = rev (dropWhile is_space (rev (dropWhile is_space s)))"

text \<open>\<^verbatim>\<open>', '.join(xs)\<close>.\<close>

fun join_comma :: "string list \<Rightarrow> string" where
  "join_comma [] = []"
| "join_comma [x] = x"
| "join_comma (x # y # ys) = x @ '', '' @ join_comma (y # ys)"

text \<open>\<^verbatim>\<open>str(i)\<close> for an integer: its decimal digits.\<close>

function str_nat :: "nat \<Rightarrow> string" where
  "str_nat n =
     (if n < 10 then [char_of (48 + n)] else str_nat (n div 10) @ [char_of (48 + n mod 10)])"
  by pat_completeness auto
termination
  by (relation "measure (\<lambda>n. n)") auto

declare str_nat.simps [simp del]

definition str_int :: "int \<Rightarrow> string" where
  "str_int i = (if i < 0 then CHR ''-'' # str_nat (nat (- i)) else str_nat (nat i))"

section \<open>The schema registry\<close>

datatype pytype = TStr | TInt | TFloat

text \<open>
  The three regular expressions of the registry. \<open>pattern_src\<close> is the text of the
  expression, which the validator quotes in its messages.
\<close>

datatype pattern = PatName | PatChrom | PatBases

record field_rule =
  ftype :: pytype
  required :: bool
  fpattern :: "pattern option"
  fmin :: "int option"
  fmax :: "int option"

type_synonym schema = "(string \<times> field_rule) list"

definition rule_str :: "pattern \<Rightarrow> field_rule" where
  "rule_str p = \<lparr>ftype = TStr, required = True, fpattern = Some p, fmin = None, fmax = None\<rparr>"

definition rule_num :: "pytype \<Rightarrow> int option \<Rightarrow> int option \<Rightarrow> field_rule" where
  "rule_num t lo hi = \<lparr>ftype = t, required = True, fpattern = None, fmin = lo, fmax = hi\<rparr>"

definition get_table_schema :: "string option \<Rightarrow> schema" where
  "get_table_schema table_type =
     (if table_type = Some ''tmb'' then
        [(''SampleName'', rule_str PatName),
         (''TMB'', rule_num TFloat (Some 0) None),
         (''BinomialLow'', rule_num TFloat (Some 0) (Some 1)),
         (''BinomialHigh'', rule_num TFloat (Some 0) (Some 1))]
      else if table_type = Some ''cns'' then
        [(''CHROM'', rule_str PatChrom),
         (''START'', rule_num TInt (Some 0) None),
         (''STOP'', rule_num TInt (Some 0) None),
         (''GENE'', rule_str PatName),
         (''log2'', rule_num TFloat None None),
         (''SampleName'', rule_str PatName)]
      else if table_type = Some ''mean_gene_coverage'' then
        [(''SampleName'', rule_str PatName),
         (''GENE'', rule_str PatName),
         (''MEAN_COVERAGE'', rule_num TFloat (Some 0) None)]
      else if table_type = Some ''mastervar'' then
        [(''SampleName'', rule_str PatName),
         (''CHROM'', rule_str PatChrom),
         (''POS'', rule_num TInt (Some 0) None),
         (''REF'', rule_str PatBases),
         (''ALT'', rule_str PatBases),
         (''AF'', rule_num TFloat (Some 0) (Some 1))]
      else [])"

section \<open>The normalizer: \<^verbatim>\<open>standardize_value\<close>\<close>

text \<open>\<^verbatim>\<open>pd.isna(value)\<close> on a scalar cell.\<close>

fun isna :: "pyval \<Rightarrow> bool" where
  "isna PNone = True"
| "isna (PFloat NaN) = True"
| "isna v = False"

text \<open>\<^verbatim>\<open>str(value)\<close>.\<close>

fun py_str :: "pylib \<Rightarrow> pyval \<Rightarrow> string" where
  "py_str L (PStr s) = s"
| "py_str L (PInt i) = str_int i"
| "py_str L (PBool b) = (if b then ''True'' else ''False'')"
| "py_str L PNone = ''None''"
| "py_str L (PFloat f) = str_float L f"
| "py_str L (PTimestamp t) = str_timestamp L t"

text \<open>\<^verbatim>\<open>float(value)\<close>: a timestamp and None are no numbers (TypeError).\<close>

fun py_float :: "pylib \<Rightarrow> pyval \<Rightarrow> py_error + pyfloat" where
  "py_float L (PFloat f) = Inr f"
| "py_float L (PInt i) =
     (case float_of_int L i of None \<Rightarrow> Inl OverflowError | Some f \<Rightarrow> Inr f)"
| "py_float L (PBool b) = Inr (Finite (if b then 1 else 0))"
| "py_float L (PStr s) =
     (case float_of_str L s of None \<Rightarrow> Inl ValueError | Some f \<Rightarrow> Inr f)"
| "py_float L (PTimestamp t) = Inl TypeError"
| "py_float L PNone = Inl TypeError"

text \<open>
  \<^verbatim>\<open>int(f)\<close> for a float: truncation towards zero; an infinity raises OverflowError
  and NaN raises ValueError.
\<close>

fun py_int_of_float :: "pyfloat \<Rightarrow> py_error + int" where
  "py_int_of_float (Finite r) = Inr (if 0 \<le> r then \<lfloor>r\<rfloor> else \<lceil>r\<rceil>)"
| "py_int_of_float PosInf = Inl OverflowError"
| "py_int_of_float NegInf = Inl OverflowError"
| "py_int_of_float NaN = Inl ValueError"

text \<open>The chromosome branch: \<^verbatim>\<open>str(value).upper().replace('CHR', '')\<close>, then X and Y.\<close>

definition standardize_chrom :: "string \<Rightarrow> string" where
  "standardize_chrom s =
     (let v = py_replace ''CHR'' [] (py_upper s)
      in if v = ''X'' then ''23'' else if v = ''Y'' then ''24'' else v)"

text \<open>\<^verbatim>\<open>except (ValueError, TypeError): return None\<close>; any other exception goes on.\<close>

fun except_value_type :: "py_error \<Rightarrow> py_error + pyval" where
  "except_value_type ValueError = Inr PNone"
| "except_value_type TypeError = Inr PNone"
| "except_value_type e = Inl e"

definition standardize_value :: "pylib \<Rightarrow> pyval \<Rightarrow> string \<Rightarrow> field_rule \<Rightarrow> py_error + pyval" where
  "standardize_value L v column_name rule =
     (if isna v then Inr PNone
      else if py_in ''CHROM'' column_name then Inr (PStr (standardize_chrom (py_str L v)))
      else (case ftype rule of
              TFloat \<Rightarrow>
                (case py_float L v of
                   Inl e \<Rightarrow> except_value_type e
                 | Inr f \<Rightarrow> Inr (PFloat f))
            | TInt \<Rightarrow>
                (case py_float L v of
                   Inl e \<Rightarrow> except_value_type e
                 | Inr f \<Rightarrow>
                     (case py_int_of_float f of
                        Inl e \<Rightarrow> except_value_type e
                      | Inr i \<Rightarrow> Inr (PInt i)))
            | TStr \<Rightarrow> Inr (PStr (py_strip (py_str L v)))))"

section \<open>The fingerprint: \<^verbatim>\<open>generate_record_hash\<close>\<close>

text \<open>
  \<^verbatim>\<open>sorted(row.items())\<close> orders the (label, cell) tuples by label; the labels of a row
  are distinct, so two tuples never tie on the label and the cells are never compared.
  The sorted list is rendered by \<^verbatim>\<open>str\<close> and digested.
\<close>

definition sorted_items :: "row \<Rightarrow> row" where
  "sorted_items r = sort_key fst r"

definition generate_record_hash :: "pylib \<Rightarrow> row \<Rightarrow> string" where
  "generate_record_hash L r = md5_hex L (repr_items L (sorted_items r))"

section \<open>The validator: \<^verbatim>\<open>validate_and_clean_data\<close>\<close>

subsection \<open>\<^verbatim>\<open>re.match\<close> on the patterns of the registry\<close>

definition is_digit :: "char \<Rightarrow> bool" where
  "is_digit c = (CHR ''0'' \<le> c \<and> c \<le> CHR ''9'')"

definition is_name_char :: "char \<Rightarrow> bool" where
  "is_name_char c =
     ((CHR ''A'' \<le> c \<and> c \<le> CHR ''Z'') \<or> (CHR ''a'' \<le> c \<and> c \<le> CHR ''z'') \<or> is_digit c
      \<or> c = CHR ''-'' \<or> c = CHR ''_'')"

definition is_base :: "char \<Rightarrow> bool" where
  "is_base c = (c = CHR ''A'' \<or> c = CHR ''C'' \<or> c = CHR ''G'' \<or> c = CHR ''T'')"

text \<open>
  \<^verbatim>\<open>$\<close> matches at the end of the text and also just before a line feed that ends
  the text.
\<close>

definition dollar :: "(string \<Rightarrow> bool) \<Rightarrow> string \<Rightarrow> bool" where
  "dollar P s = (P s \<or> (s \<noteq> [] \<and> last s = CHR 0x0A \<and> P (butlast s)))"

definition one_or_more :: "(char \<Rightarrow> bool) \<Rightarrow> string \<Rightarrow> bool" where
  "one_or_more P s = (s \<noteq> [] \<and> list_all P s)"

definition chrom_body :: "string \<Rightarrow> bool" where
  "chrom_body s =
     (dollar (one_or_more is_digit) s \<or> dollar (\<lambda>t. t = ''X'' \<or> t = ''Y'') s)"

fun re_match :: "pattern \<Rightarrow> string \<Rightarrow> bool" where
  "re_match PatName s = dollar (one_or_more is_name_char) s"
| "re_match PatBases s = dollar (one_or_more is_base) s"
| "re_match PatChrom s =
     (chrom_body s \<or> (starts_with ''chr'' s \<and> chrom_body (drop 3 s)))"

fun pattern_src :: "pattern \<Rightarrow> string" where
  "pattern_src PatName = ''^[A-Za-z0-9'' @ [CHR 0x5C] @ ''-_]+$''"
| "pattern_src PatBases = ''^[ACGT]+$''"
| "pattern_src PatChrom =
     ''^(chr)?'' @ [CHR 0x5C] @ ''d+$|^(chr)?[XY]$''"

subsection \<open>The checks on one cell\<close>

text \<open>\<^verbatim>\<open>isinstance(std_val, schema[col]['type'])\<close>; a bool is an int in Python.\<close>

fun isinstance :: "pyval \<Rightarrow> pytype \<Rightarrow> bool" where
  "isinstance (PStr s) TStr = True"
| "isinstance (PInt i) TInt = True"
| "isinstance (PBool b) TInt = True"
| "isinstance (PFloat f) TFloat = True"
| "isinstance v t = False"

text \<open>
  \<^verbatim>\<open>std_val < m\<close> and \<^verbatim>\<open>std_val > m\<close> for a number and an integer bound; every
  comparison with NaN is false.
\<close>

fun num_lt :: "pyval \<Rightarrow> int \<Rightarrow> bool" where
  "num_lt (PInt i) m = (i < m)"
| "num_lt (PBool b) m = ((if b then 1 else 0) < m)"
| "num_lt (PFloat (Finite r)) m = (r < of_int m)"
| "num_lt (PFloat NegInf) m = True"
| "num_lt v m = False"

fun num_gt :: "pyval \<Rightarrow> int \<Rightarrow> bool" where
  "num_gt (PInt i) m = (m < i)"
| "num_gt (PBool b) m = (m < (if b then 1 else 0))"
| "num_gt (PFloat (Finite r)) m = (of_int m < r)"
| "num_gt (PFloat PosInf) m = True"
| "num_gt v m = False"

definition check_value :: "string \<Rightarrow> field_rule \<Rightarrow> pyval \<Rightarrow> string list" where
  "check_value col rule std_val =
     (if required rule \<and> std_val = PNone then [col @ '': Required field is null'']
      else if std_val \<noteq> PNone then
        (if \<not> isinstance std_val (ftype rule) then [col @ '': Invalid type'']
         else if ftype rule = TStr \<and> fpattern rule \<noteq> None then
           (case (fpattern rule, std_val) of
              (Some p, PStr s) \<Rightarrow>
                (if \<not> re_match p s
                 then [col @ '': Does not match pattern '' @ pattern_src p] else [])
            | _ \<Rightarrow> [])
         else if ftype rule = TInt \<or> ftype rule = TFloat then
           (case fmin rule of
              Some m \<Rightarrow>
                (if num_lt std_val m then [col @ '': Below minimum value '' @ str_int m] else [])
            | None \<Rightarrow> [])
           @ (case fmax rule of
                Some m \<Rightarrow>
                  (if num_gt std_val m then [col @ '': Above maximum value '' @ str_int m] else [])
              | None \<Rightarrow> [])
         else [])
      else [])"

subsection \<open>The loop over the cells of a row\<close>

text \<open>
  The inner loop returns the messages (\<^verbatim>\<open>invalid_columns\<close>) and the standardized row;
  it stops with the exception when \<^verbatim>\<open>standardize_value\<close> raises one.
\<close>

fun check_cells :: "pylib \<Rightarrow> schema \<Rightarrow> row \<Rightarrow> py_error + (string list \<times> row)" where
  "check_cells L sch [] = Inr ([], [])"
| "check_cells L sch ((col, val) # cells) =
     (case map_of sch col of
        Some rule \<Rightarrow>
          (case standardize_value L val col rule of
             Inl e \<Rightarrow> Inl e
           | Inr std_val \<Rightarrow>
               (case check_cells L sch cells of
                  Inl e \<Rightarrow> Inl e
                | Inr (msgs, std_row) \<Rightarrow>
                    Inr (check_value col rule std_val @ msgs, (col, std_val) # std_row)))
      | None \<Rightarrow>
          (case check_cells L sch cells of
             Inl e \<Rightarrow> Inl e
           | Inr (msgs, std_row) \<Rightarrow> Inr (msgs, (col, val) # std_row)))"

text \<open>
  Column assignment \<^verbatim>\<open>df[k] = v\<close> on one row, and the assignment \<^verbatim>\<open>d[k] = v\<close> of a
  dict: an existing label keeps its place and takes the new cell, a new label goes to
  the end.
\<close>

fun set_cell :: "string \<Rightarrow> pyval \<Rightarrow> row \<Rightarrow> row" where
  "set_cell k v [] = [(k, v)]"
| "set_cell k v ((k', v') # r) = (if k' = k then (k, v) # r else (k', v') # set_cell k v r)"

text \<open>
  \<^verbatim>\<open>{'index': idx, 'reason': ..., **row.to_dict()}\<close>: the record dropped by the
  validator carries the raw row.
\<close>

definition dropped_record :: "nat \<Rightarrow> string list \<Rightarrow> row \<Rightarrow> row" where
  "dropped_record idx msgs r =
     fold (\<lambda>(k, v) d. set_cell k v d) r
       [(''index'', PInt (int idx)),
        (''reason'', PStr (''Invalid values in columns: '' @ join_comma msgs))]"

text \<open>
  The loop over the rows, from index \<open>idx\<close> on: the pair of \<^verbatim>\<open>cleaned_rows\<close> and
  \<^verbatim>\<open>dropped_records\<close>.
\<close>

fun check_rows :: "pylib \<Rightarrow> schema \<Rightarrow> nat \<Rightarrow> dataframe \<Rightarrow> py_error + (dataframe \<times> dataframe)" where
  "check_rows L sch idx [] = Inr ([], [])"
| "check_rows L sch idx (r # rs) =
     (case check_cells L sch r of
        Inl e \<Rightarrow> Inl e
      | Inr (msgs, std_row) \<Rightarrow>
          (case check_rows L sch (Suc idx) rs of
             Inl e \<Rightarrow> Inl e
           | Inr (cleaned, dropped) \<Rightarrow>
               if msgs \<noteq> [] then Inr (cleaned, dropped_record idx msgs r # dropped)
               else Inr (std_row # cleaned, dropped)))"

subsection \<open>Duplicates by \<^verbatim>\<open>record_hash\<close>\<close>

text \<open>The cell of a row under a label; a missing label reads as NaN after a reindex.\<close>

definition get_cell :: "string \<Rightarrow> row \<Rightarrow> pyval" where
  "get_cell k r = (case map_of r k of Some v \<Rightarrow> v | None \<Rightarrow> PFloat NaN)"

text \<open>
  \<^verbatim>\<open>duplicated(subset=['record_hash'], keep='first')\<close>: the mask is true at a row whose
  key was seen at an earlier row. \<open>seen\<close> holds the keys met so far.
\<close>

fun duplicated_first :: "pyval list \<Rightarrow> pyval list \<Rightarrow> bool list" where
  "duplicated_first seen [] = []"
| "duplicated_first seen (k # ks) = (k \<in> set seen) # duplicated_first (k # seen) ks"

definition duplicated :: "dataframe \<Rightarrow> bool list" where
  "duplicated df = duplicated_first [] (map (get_cell ''record_hash'') df)"

text \<open>Selection of rows by a boolean mask, \<^verbatim>\<open>df[mask]\<close>.\<close>

definition select_rows :: "bool list \<Rightarrow> dataframe \<Rightarrow> dataframe" where
  "select_rows keep df = map snd (filter fst (zip keep df))"

definition drop_duplicates :: "dataframe \<Rightarrow> dataframe" where
  "drop_duplicates df = select_rows (map Not (duplicated df)) df"

text \<open>\<^verbatim>\<open>duplicates.assign(reason="Duplicate record")\<close>.\<close>

definition assign_reason :: "dataframe \<Rightarrow> dataframe" where
  "assign_reason df = map (set_cell ''reason'' (PStr ''Duplicate record'')) df"

text \<open>
  \<^verbatim>\<open>pd.concat([a, b])\<close>: the columns are those of \<open>a\<close> followed by the new ones of
  \<open>b\<close>; a row without a column gets NaN there.
\<close>

definition columns :: "dataframe \<Rightarrow> string list" where
  "columns df = (case df of [] \<Rightarrow> [] | r # rs \<Rightarrow> map fst r)"

definition reindex :: "string list \<Rightarrow> row \<Rightarrow> row" where
  "reindex cols r = map (\<lambda>c. (c, get_cell c r)) cols"

definition pd_concat :: "dataframe \<Rightarrow> dataframe \<Rightarrow> dataframe" where
  "pd_concat a b =
     (let cols = columns a @ filter (\<lambda>c. c \<notin> set (columns a)) (columns b)
      in map (reindex cols) (a @ b))"

subsection \<open>The whole step\<close>

text \<open>\<^verbatim>\<open>df.empty\<close>: no row, or no column.\<close>

definition df_empty :: "dataframe \<Rightarrow> bool" where
  "df_empty df = (df = [] \<or> columns df = [])"

text \<open>
  \<^verbatim>\<open>next((t for t in [...] if t in table_name.lower()), None)\<close>.
\<close>

definition table_type_of :: "string \<Rightarrow> string option" where
  "table_type_of table_name =
     find (\<lambda>t. py_in t (py_lower table_name))
       [''tmb'', ''cns'', ''mean_gene_coverage'', ''mastervar'']"

text \<open>
  The two metadata columns: every row gets the clock reading \<open>now\<close> of this run, and
  then the fingerprint of the row as it is at that moment, timestamp included.
\<close>

definition add_metadata :: "pylib \<Rightarrow> nat \<Rightarrow> dataframe \<Rightarrow> dataframe" where
  "add_metadata L now df =
     map (\<lambda>r. let r' = set_cell ''upload_timestamp'' (PTimestamp now) r
              in set_cell ''record_hash'' (PStr (generate_record_hash L r')) r') df"

text \<open>\<^verbatim>\<open>pd.DataFrame(rows) if rows else None\<close>.\<close>

definition frame_or_none :: "dataframe \<Rightarrow> dataframe option" where
  "frame_or_none rows = (if rows = [] then None else Some rows)"

text \<open>
  The duplicate step on the pair (\<^verbatim>\<open>cleaned_df\<close>, \<^verbatim>\<open>dropped_df\<close>).
\<close>

definition dedup_step :: "dataframe option \<Rightarrow> dataframe option \<Rightarrow> dataframe option \<times> dataframe option" where
  "dedup_step cleaned_df dropped_df =
     (case cleaned_df of
        None \<Rightarrow> (cleaned_df, dropped_df)
      | Some c \<Rightarrow>
          if df_empty c then (cleaned_df, dropped_df)
          else
            (let duplicates = select_rows (duplicated c) c
             in if duplicates = [] then (cleaned_df, dropped_df)
                else
                  (Some (drop_duplicates c),
                   (case dropped_df of
                      Some d \<Rightarrow> Some (pd_concat d (assign_reason duplicates))
                    | None \<Rightarrow> Some (assign_reason duplicates)))))"

text \<open>
  \<^verbatim>\<open>validate_and_clean_data(df, table_name)\<close>; \<open>now\<close> is what \<^verbatim>\<open>datetime.now()\<close>
  returns in this run. The callers pass a DataFrame, never None.
\<close>

definition validate_and_clean_data ::
  "pylib \<Rightarrow> nat \<Rightarrow> dataframe \<Rightarrow> string \<Rightarrow> py_error + (dataframe option \<times> dataframe option)" where
  "validate_and_clean_data L now df table_name =
     (if df_empty df then Inr (None, None)
      else
        (let sch = get_table_schema (table_type_of table_name);
             df' = add_metadata L now df
         in case check_rows L sch 0 df' of
              Inl e \<Rightarrow> Inl e
            | Inr (cleaned_rows, dropped_records) \<Rightarrow>
                Inr (dedup_step (frame_or_none cleaned_rows) (frame_or_none dropped_records))))"

section \<open>The store\<close>

text \<open>
  The database maps a table name to the rows of the table, in insertion order; a table
  that does not exist maps to \<open>None\<close>.
  \<^verbatim>\<open>df.to_sql(table_name, engine, if_exists='append', index=False)\<close> creates a missing
  table and appends the rows in one transaction: when the database refuses the batch,
  nothing of it is stored and the call raises.
\<close>

type_synonym store = "string \<Rightarrow> dataframe option"

definition table_rows :: "store \<Rightarrow> string \<Rightarrow> dataframe" where
  "table_rows st table_name = (case st table_name of None \<Rightarrow> [] | Some rows \<Rightarrow> rows)"

definition to_sql :: "pylib \<Rightarrow> store \<Rightarrow> string \<Rightarrow> dataframe \<Rightarrow> py_error + store" where
  "to_sql L st table_name df =
     (if db_accepts L table_name (table_rows st table_name) df
      then Inr (st(table_name \<mapsto> table_rows st table_name @ df))
      else Inl DatabaseError)"

section \<open>The verifier: \<^verbatim>\<open>verify_upload\<close>\<close>

text \<open>
  The loop over the sampled records: a record whose query counts no row, or whose query
  raises, ends the verification with False.
\<close>

fun check_sample :: "pylib \<Rightarrow> dataframe \<Rightarrow> dataframe \<Rightarrow> bool" where
  "check_sample L stored [] = True"
| "check_sample L stored (record # records) =
     (case db_select_count L stored record of
        None \<Rightarrow> False
      | Some c \<Rightarrow> if c = 0 then False else check_sample L stored records)"

text \<open>
  \<^verbatim>\<open>SELECT COUNT(*)\<close> on a table that does not exist raises, and the handler returns
  False.
\<close>

definition verify_upload :: "pylib \<Rightarrow> dataframe \<Rightarrow> string \<Rightarrow> store \<Rightarrow> bool" where
  "verify_upload L df table_name st =
     (case st table_name of
        None \<Rightarrow> False
      | Some stored \<Rightarrow>
          (let db_count = length stored; df_count = length df
           in if db_count \<noteq> df_count then False
              else
                (let sample_size = min 5 (length df)
                 in if sample_size > 0
                    then check_sample L stored (sample L df sample_size)
                    else True)))"

section \<open>The uploads\<close>

text \<open>
  \<^verbatim>\<open>upload_to_database(df, table_name, engine)\<close>: the result and the store afterwards.
  Every exception ends in the handler, which returns False; what was written before
  stays.
\<close>

definition upload_to_database :: "pylib \<Rightarrow> nat \<Rightarrow> dataframe \<Rightarrow> string \<Rightarrow> store \<Rightarrow> bool \<times> store" where
  "upload_to_database L now df table_name st =
     (if df_empty df then (False, st)
      else
        (case validate_and_clean_data L now df table_name of
           Inl e \<Rightarrow> (False, st)
         | Inr (cleaned_df, dropped_df) \<Rightarrow>
             (case cleaned_df of
                None \<Rightarrow> (False, st)
              | Some cleaned \<Rightarrow>
                  if df_empty cleaned then (False, st)
                  else
                    (case to_sql L st table_name cleaned of
                       Inl e \<Rightarrow> (False, st)
                     | Inr st1 \<Rightarrow>
                         (case (case dropped_df of
                                  None \<Rightarrow> Inr st1
                                | Some dropped \<Rightarrow>
                                    if df_empty dropped then Inr st1
                                    else to_sql L st1 (table_name @ ''_dropped_records'') dropped) of
                            Inl e \<Rightarrow> (False, st1)
                          | Inr st2 \<Rightarrow> (verify_upload L cleaned table_name st2, st2))))))"

text \<open>
  \<^verbatim>\<open>process_file_chunk((df, table_name, engine))\<close>: the chunk goes to \<^verbatim>\<open>to_sql\<close> as it
  is; the result is the pair of the flag and the error.
\<close>

definition process_file_chunk ::
  "pylib \<Rightarrow> dataframe \<times> string \<Rightarrow> store \<Rightarrow> (bool \<times> py_error option) \<times> store" where
  "process_file_chunk L chunk_data st =
     (case chunk_data of
        (df, table_name) \<Rightarrow>
          (case to_sql L st table_name df of
             Inr st' \<Rightarrow> ((True, None), st')
           | Inl e \<Rightarrow> ((False, Some e), st)))"

text \<open>
  \<^verbatim>\<open>range(0, n, step)\<close>: a zero step raises ValueError, a negative step gives the
  empty range.
\<close>

definition py_range :: "nat \<Rightarrow> int \<Rightarrow> py_error + nat list" where
  "py_range n step =
     (if step = 0 then Inl ValueError
      else if step < 0 then Inr []
      else Inr (map (\<lambda>k. k * nat step) [0 ..< (n + nat step - 1) div nat step]))"

text \<open>The slice \<^verbatim>\<open>df[i:i + chunk_size]\<close> for a positive size.\<close>

definition slice_rows :: "dataframe \<Rightarrow> nat \<Rightarrow> nat \<Rightarrow> dataframe" where
  "slice_rows df i chunk_size = take chunk_size (drop i df)"

definition make_chunks :: "dataframe \<Rightarrow> int \<Rightarrow> py_error + dataframe list" where
  "make_chunks df chunk_size =
     (case py_range (length df) chunk_size of
        Inl e \<Rightarrow> Inl e
      | Inr starts \<Rightarrow> Inr (map (\<lambda>i. slice_rows df i (nat chunk_size)) starts))"

text \<open>
  The worker pool runs \<^verbatim>\<open>process_file_chunk\<close> once for every chunk. Each call is one
  transaction on the store; the model runs them one after the other in the order of
  submission, so the rows of a table are known up to their order.
\<close>

fun run_chunks ::
  "pylib \<Rightarrow> string \<Rightarrow> store \<Rightarrow> dataframe list \<Rightarrow> (bool \<times> py_error option) list \<times> store" where
  "run_chunks L table_name st [] = ([], st)"
| "run_chunks L table_name st (c # cs) =
     (case process_file_chunk L (c, table_name) st of
        (res, st1) \<Rightarrow>
          (case run_chunks L table_name st1 cs of
             (rs, st2) \<Rightarrow> (res # rs, st2)))"

text \<open>
  \<^verbatim>\<open>parallel_upload(df, table_name, engine, chunk_size)\<close>. The exception of
  \<^verbatim>\<open>range\<close> is not handled in the function and leaves it.
\<close>

definition parallel_upload ::
  "pylib \<Rightarrow> nat \<Rightarrow> dataframe \<Rightarrow> string \<Rightarrow> store \<Rightarrow> int \<Rightarrow> py_error + (bool \<times> store)" where
  "parallel_upload L now df table_name st chunk_size =
     (if int (length df) < chunk_size then Inr (upload_to_database L now df table_name st)
      else
        (case make_chunks df chunk_size of
           Inl e \<Rightarrow> Inl e
         | Inr chunks \<Rightarrow>
             (case run_chunks L table_name st chunks of
                (results, st') \<Rightarrow> Inr (list_all fst results, st'))))"

section \<open>An instance of the library\<close>

text \<open>
  To run the functions on concrete inputs the library is instantiated: the digest is
  the identity, a list of items prints as \<open>label=cell;\<close> for every item, a float prints
  as a fixed text, no text parses as a float, the sample is a prefix, the database
  accepts every batch and a query counts the stored rows equal to the record.
\<close>

fun plain_str :: "pyval \<Rightarrow> string" where
  "plain_str (PStr s) = s"
| "plain_str (PInt i) = str_int i"
| "plain_str (PTimestamp t) = str_nat t"
| "plain_str (PBool b) = (if b then ''True'' else ''False'')"
| "plain_str PNone = ''None''"
| "plain_str (PFloat f) = ''float''"

definition plain_lib :: pylib where
  "plain_lib =
     \<lparr>str_float = (\<lambda>f. ''float''),
      str_timestamp = str_nat,
      float_of_str = (\<lambda>s. None),
      float_of_int = (\<lambda>i. Some (Finite (of_int i))),
      repr_items = (\<lambda>r. concat (map (\<lambda>(k, v). k @ ''='' @ plain_str v @ '';'') r)),
      md5_hex = (\<lambda>s. s),
      sample = (\<lambda>df k. take k df),
      db_accepts = (\<lambda>table_name old new. True),
      db_select_count = (\<lambda>stored r. Some (length (filter (\<lambda>x. x = r) stored)))\<rparr>"

definition empty_store :: store where
  "empty_store = (\<lambda>table_name. None)"

section \<open>The deduplication as the specification words it\<close>

text \<open>
  The specification describes the Deduplicator as a scan: the records are visited in
  their original order, the first record seen for a \<^verbatim>\<open>record_hash\<close> is kept, and
  every later record with a hash already seen is a duplicate. \<open>first_seen_scan\<close> is
  this scan, with the hashes seen so far; it returns the kept records and the
  duplicates. It is compared below with the masks that the code computes.
\<close>

fun first_seen_scan :: "pyval list \<Rightarrow> dataframe \<Rightarrow> dataframe \<times> dataframe" where
  "first_seen_scan seen [] = ([], [])"
| "first_seen_scan seen (r # rs) =
     (let k = get_cell ''record_hash'' r;
          (kept, dups) = first_seen_scan (k # seen) rs
      in if k \<in> set seen then (kept, r # dups) else (r # kept, dups))"

text \<open>The rows of an optional frame; None has no rows.\<close>

definition frame_rows :: "dataframe option \<Rightarrow> dataframe" where
  "frame_rows f = (case f of None \<Rightarrow> [] | Some rows \<Rightarrow> rows)"

section \<open>Outputs that agree outside the metadata columns\<close>

text \<open>
  Two rows agree off a set of labels when they have the same labels in the same places
  and the same cells under every label outside the set.
\<close>

definition agree_off :: "string set \<Rightarrow> row \<Rightarrow> row \<Rightarrow> bool" where
  "agree_off M r1 r2 =
     list_all2 (\<lambda>p q. fst p = fst q \<and> (fst p \<notin> M \<longrightarrow> snd p = snd q)) r1 r2"

text \<open>The two columns that \<^verbatim>\<open>validate_and_clean_data\<close> adds.\<close>

definition metadata_columns :: "string set" where
  "metadata_columns = {''upload_timestamp'', ''record_hash''}"

text \<open>A row with the clock reading of the run in it: what the fingerprint is taken of.\<close>

definition stamped :: "nat \<Rightarrow> row \<Rightarrow> row" where
  "stamped now r = set_cell ''upload_timestamp'' (PTimestamp now) r"

text \<open>
  The digest does not confuse two records of the batch at the given clock reading:
  when two of them get the same \<^verbatim>\<open>record_hash\<close>, their hashed contents are equal.
  The specification asks of the fingerprint that collisions be negligible for the batch
  sizes in practice.
\<close>

definition batch_collision_free :: "pylib \<Rightarrow> nat \<Rightarrow> dataframe \<Rightarrow> bool" where
  "batch_collision_free L now df =
     (\<forall>r \<in> set df. \<forall>r' \<in> set df.
        generate_record_hash L (stamped now r) = generate_record_hash L (stamped now r')
        \<longrightarrow> sorted_items (stamped now r) = sorted_items (stamped now r'))"

text \<open>
  Two optional frames are the same up to the metadata cells when both are None, or both
  hold the same number of rows and the rows agree, one by one, off the metadata columns.
  Two results of \<^verbatim>\<open>validate_and_clean_data\<close> are the same outcome when both raise the
  same exception, or both return and the accepted frames and the rejected frames are
  the same up to the metadata cells.
\<close>

definition same_frame :: "dataframe option \<Rightarrow> dataframe option \<Rightarrow> bool" where
  "same_frame f1 f2 = rel_option (list_all2 (agree_off metadata_columns)) f1 f2"

definition same_outcome ::
  "py_error + (dataframe option \<times> dataframe option) \<Rightarrow>
   py_error + (dataframe option \<times> dataframe option) \<Rightarrow> bool" where
  "same_outcome x y =
     (case (x, y) of
        (Inl e1, Inl e2) \<Rightarrow> e1 = e2
      | (Inr (a1, r1), Inr (a2, r2)) \<Rightarrow> same_frame a1 a2 \<and> same_frame r1 r2
      | _ \<Rightarrow> False)"

text \<open>
  Two rows are paired under a relation of hashes when they agree off the metadata
  columns and their \<^verbatim>\<open>record_hash\<close> cells are related.
\<close>

definition paired :: "(pyval \<Rightarrow> pyval \<Rightarrow> bool) \<Rightarrow> row \<Rightarrow> row \<Rightarrow> bool" where
  "paired K r1 r2 =
     (agree_off metadata_columns r1 r2
      \<and> K (get_cell ''record_hash'' r1) (get_cell ''record_hash'' r2))"


section \<open>Example records\<close>

text \<open>A record of a tumor-mutational-burden table, and what the validator makes of it
  at the clock reading 7 with the library instance above.\<close>

definition tmb_good :: row where
  "tmb_good = [(''SampleName'', PStr ''S1''), (''TMB'', PFloat (Finite 5))]"

definition tmb_good_cleaned :: row where
  "tmb_good_cleaned =
     [(''SampleName'', PStr ''S1''), (''TMB'', PFloat (Finite 5)),
      (''upload_timestamp'', PTimestamp 7),
      (''record_hash'', PStr ''SampleName=S1;TMB=float;upload_timestamp=7;'')]"

text \<open>The same record as the duplicate step rejects it.\<close>

definition tmb_good_duplicate :: row where
  "tmb_good_duplicate = tmb_good_cleaned @ [(''reason'', PStr ''Duplicate record'')]"

text \<open>
  A record with a negative burden, what the validator makes of it at the clock reading
  7, and a copy-number record whose start is the float infinity.
\<close>

definition tmb_bad :: row where
  "tmb_bad = [(''SampleName'', PStr ''S1''), (''TMB'', PFloat (Finite (- 1)))]"

definition tmb_bad_dropped :: row where
  "tmb_bad_dropped =
     [(''index'', PInt 0),
      (''reason'', PStr ''Invalid values in columns: TMB: Below minimum value 0''),
      (''SampleName'', PStr ''S1''), (''TMB'', PFloat (Finite (- 1))),
      (''upload_timestamp'', PTimestamp 7),
      (''record_hash'', PStr ''SampleName=S1;TMB=float;upload_timestamp=7;'')]"

definition cns_overflow :: row where
  "cns_overflow = [(''CHROM'', PStr ''chr1''), (''START'', PFloat PosInf)]"

text \<open>
  Two records of a second sample, one with a negative burden, and a library whose
  digest gives one value to every text that holds the timestamp 7.
\<close>

definition tmb_low :: row where
  "tmb_low = [(''SampleName'', PStr ''S2''), (''TMB'', PFloat (Finite (- 1)))]"

definition tmb_second :: row where
  "tmb_second = [(''SampleName'', PStr ''S2''), (''TMB'', PFloat (Finite 5))]"

definition colliding_lib :: pylib where
  "colliding_lib =
     plain_lib\<lparr>md5_hex := (\<lambda>s. if py_in ''upload_timestamp=7;'' s then ''0'' else s)\<rparr>"

section \<open>Properties of the normalizer\<close>

lemma starts_with_append: "starts_with p (p @ t)"
  by (induction p) auto

lemma py_replace_Nil [simp]: "py_replace old new [] = []"
  by (subst py_replace.simps) simp

lemma py_replace_absent: "\<not> py_in old s \<Longrightarrow> py_replace old new s = s"
proof (induction s)
  case Nil
  then show ?case by simp
next
  case (Cons c cs)
  from Cons.prems have a: "\<not> starts_with old (c # cs)" and b: "\<not> py_in old cs"
    by auto
  from b have "py_replace old new cs = cs" by (rule Cons.IH)
  with a show ?case by (subst py_replace.simps) simp
qed

lemma py_replace_prefix:
  "old \<noteq> [] \<Longrightarrow> py_replace old new (old @ t) = new @ py_replace old new t"
  by (subst py_replace.simps) (simp add: starts_with_append)

lemma py_upper_append: "py_upper (p @ t) = py_upper p @ py_upper t"
  by (simp add: py_upper_def)

text \<open>
  Claim C6, as the code has it. In a column whose label contains \<^verbatim>\<open>CHROM\<close>, a cell
  that is not null is rendered as text, put in upper case, and every occurrence of
  \<^verbatim>\<open>CHR\<close> is removed from it, wherever it stands; then \<^verbatim>\<open>X\<close> becomes \<^verbatim>\<open>23\<close> and
  \<^verbatim>\<open>Y\<close> becomes \<^verbatim>\<open>24\<close>. Hence a text made of the prefix \<^verbatim>\<open>chr\<close> in any case and an
  upper-case rest without \<^verbatim>\<open>CHR\<close> loses exactly the prefix, and an upper-case text
  without \<^verbatim>\<open>CHR\<close> other than \<^verbatim>\<open>X\<close> and \<^verbatim>\<open>Y\<close> is returned unchanged. Lower-case
  letters do not pass through unchanged.
\<close>

theorem chrom_normalization:
  assumes "py_in ''CHROM'' column_name"
  shows "(\<not> isna v \<longrightarrow>
            standardize_value L v column_name rule =
              Inr (PStr (let u = py_replace ''CHR'' [] (py_upper (py_str L v))
                         in if u = ''X'' then ''23'' else if u = ''Y'' then ''24'' else u)))
       \<and> (py_upper p = ''CHR'' \<and> py_upper t = t \<and> \<not> py_in ''CHR'' t \<longrightarrow>
            standardize_value L (PStr (p @ t)) column_name rule =
              Inr (PStr (if t = ''X'' then ''23'' else if t = ''Y'' then ''24'' else t)))
       \<and> (py_upper s = s \<and> \<not> py_in ''CHR'' s \<and> s \<noteq> ''X'' \<and> s \<noteq> ''Y'' \<longrightarrow>
            standardize_value L (PStr s) column_name rule = Inr (PStr s))"
proof (intro conjI impI)
  assume "\<not> isna v"
  then show "standardize_value L v column_name rule =
               Inr (PStr (let u = py_replace ''CHR'' [] (py_upper (py_str L v))
                          in if u = ''X'' then ''23'' else if u = ''Y'' then ''24'' else u))"
    using assms by (simp add: standardize_value_def standardize_chrom_def)
next
  assume h: "py_upper p = ''CHR'' \<and> py_upper t = t \<and> \<not> py_in ''CHR'' t"
  have "py_replace ''CHR'' [] (py_upper (p @ t)) = py_replace ''CHR'' [] t"
    using h py_replace_prefix [of "''CHR''" "[]" t] by (simp add: py_upper_append)
  also have "\<dots> = t" using h by (simp add: py_replace_absent)
  finally show "standardize_value L (PStr (p @ t)) column_name rule =
                  Inr (PStr (if t = ''X'' then ''23'' else if t = ''Y'' then ''24'' else t))"
    using assms by (simp add: standardize_value_def standardize_chrom_def)
next
  assume "py_upper s = s \<and> \<not> py_in ''CHR'' s \<and> s \<noteq> ''X'' \<and> s \<noteq> ''Y''"
  then show "standardize_value L (PStr s) column_name rule = Inr (PStr s)"
    using assms by (simp add: standardize_value_def standardize_chrom_def py_replace_absent)
qed

theorem chrom_normalization_witness:
  "py_in ''CHROM'' ''CHROM'' \<and> \<not> isna (PStr ''chrUn'')
   \<and> py_upper ''Chr'' = ''CHR'' \<and> py_upper ''X'' = ''X'' \<and> \<not> py_in ''CHR'' ''X''
   \<and> py_upper ''17'' = ''17'' \<and> \<not> py_in ''CHR'' ''17''
   \<and> standardize_value plain_lib (PStr ''chrUn'') ''CHROM'' (rule_str PatChrom) = Inr (PStr ''UN'')
   \<and> standardize_value plain_lib (PStr ''ChrX'') ''CHROM'' (rule_str PatChrom) = Inr (PStr ''23'')
   \<and> standardize_value plain_lib (PStr ''17'') ''CHROM'' (rule_str PatChrom) = Inr (PStr ''17'')"
proof -
  have h: "py_in ''CHROM'' ''CHROM''" by simp
  have e: "py_replace ''CHR'' [] (py_upper ''chrUn'') = ''UN''" by code_simp
  have a: "\<not> isna (PStr ''chrUn'')" by simp
  have b: "py_upper ''Chr'' = ''CHR'' \<and> py_upper ''X'' = ''X'' \<and> \<not> py_in ''CHR'' ''X''"
    by code_simp
  have c: "py_upper ''17'' = ''17'' \<and> \<not> py_in ''CHR'' ''17'' \<and> ''17'' \<noteq> ''X'' \<and> ''17'' \<noteq> ''Y''"
    by code_simp
  show ?thesis
    using h a b c e
      chrom_normalization [OF h, of "PStr ''chrUn''" plain_lib "rule_str PatChrom" "''Chr''" "''X''" "''17''"]
    by simp
qed

text \<open>
  The claim C6 as the specification words it fails: \<^verbatim>\<open>mt\<close> has no chromosome prefix
  and is neither \<^verbatim>\<open>X\<close> nor \<^verbatim>\<open>Y\<close>, yet it does not pass through unchanged; and in
  \<^verbatim>\<open>Xchr\<close> the removed \<^verbatim>\<open>chr\<close> is no prefix.
\<close>

theorem chrom_unchanged_counterexample:
  "standardize_value plain_lib (PStr ''mt'') ''CHROM'' (rule_str PatChrom) \<noteq> Inr (PStr ''mt'')
   \<and> standardize_value plain_lib (PStr ''mt'') ''CHROM'' (rule_str PatChrom) = Inr (PStr ''MT'')
   \<and> standardize_value plain_lib (PStr ''Xchr'') ''CHROM'' (rule_str PatChrom) = Inr (PStr ''23'')"
  by code_simp

text \<open>
  Claim C7 at the input where the code leaves it: the float infinity in a column of
  integer type is no null, \<^verbatim>\<open>float\<close> returns it, \<^verbatim>\<open>int\<close> raises OverflowError, and
  the handler of \<^verbatim>\<open>standardize_value\<close> catches ValueError and TypeError only, so the
  function raises instead of returning None.
\<close>

theorem standardize_value_overflow_escapes:
  "standardize_value L (PFloat PosInf) ''START'' (rule_num TInt (Some 0) None) = Inl OverflowError"
  by (simp add: standardize_value_def rule_num_def)

section \<open>Properties of the verifier\<close>

text \<open>
  Claim C8. When the table holds a number of rows other than the number of uploaded
  records, \<^verbatim>\<open>verify_upload\<close> returns False. The statement holds for every library,
  that is, whatever the sample is and whatever the existence queries answer: the
  function returns at the comparison of the counts.
\<close>

theorem verify_upload_count_mismatch:
  assumes "st table_name = Some stored" and "length stored \<noteq> length df"
  shows "verify_upload L df table_name st = False"
  using assms by (simp add: verify_upload_def)

theorem verify_upload_count_mismatch_witness:
  "(empty_store(''tmb_data'' \<mapsto> [tmb_good, tmb_good])) ''tmb_data'' = Some [tmb_good, tmb_good]
   \<and> length [tmb_good, tmb_good] \<noteq> length [tmb_good]
   \<and> verify_upload plain_lib [tmb_good] ''tmb_data''
        (empty_store(''tmb_data'' \<mapsto> [tmb_good, tmb_good])) = False"
proof -
  have a: "(empty_store(''tmb_data'' \<mapsto> [tmb_good, tmb_good])) ''tmb_data'' = Some [tmb_good, tmb_good]"
    by simp
  have b: "length [tmb_good, tmb_good] \<noteq> length [tmb_good]" by simp
  show ?thesis
    using a b
      verify_upload_count_mismatch
        [of "empty_store(''tmb_data'' \<mapsto> [tmb_good, tmb_good])" "''tmb_data''"
            "[tmb_good, tmb_good]" "[tmb_good]" plain_lib]
    by simp
qed

section \<open>Properties of the single upload\<close>

lemma to_sql_same:
  "to_sql L st t df = Inr st' \<Longrightarrow> st' t = Some (table_rows st t @ df)"
  by (auto simp: to_sql_def split: if_splits)

lemma to_sql_other:
  "to_sql L st t df = Inr st' \<Longrightarrow> t' \<noteq> t \<Longrightarrow> st' t' = st t'"
  by (auto simp: to_sql_def split: if_splits)

lemma dropped_name_neq: "table_name @ ''_dropped_records'' \<noteq> table_name"
  by simp

lemma upload_result_cases:
  "upload_to_database L now df table_name st = (ok, st') \<Longrightarrow>
     (\<not> ok \<and> st' = st)
     \<or> (\<exists>cleaned dropped st1.
           validate_and_clean_data L now df table_name = Inr (Some cleaned, dropped)
           \<and> to_sql L st table_name cleaned = Inr st1
           \<and> st' table_name = st1 table_name
           \<and> (ok \<longrightarrow> verify_upload L cleaned table_name st'))"
  by (auto simp: upload_to_database_def
      split: sum.splits option.splits if_splits prod.splits
      dest: to_sql_other [where t' = table_name])

lemma upload_written:
  assumes "\<not> df_empty df"
    and "validate_and_clean_data L now df table_name = Inr (Some cleaned, dropped)"
    and "\<not> df_empty cleaned"
    and "db_accepts L table_name (table_rows st table_name) cleaned"
  shows "snd (upload_to_database L now df table_name st) table_name
           = Some (table_rows st table_name @ cleaned)"
proof -
  let ?st1 = "st(table_name \<mapsto> table_rows st table_name @ cleaned)"
  have w: "to_sql L st table_name cleaned = Inr ?st1"
    using assms(4) by (simp add: to_sql_def)
  show ?thesis
    using assms(1-3) w
    by (auto simp: upload_to_database_def
        split: sum.splits option.splits if_splits
        dest: to_sql_other [where t' = table_name])
qed

text \<open>
  Claim C10. \<^verbatim>\<open>to_sql\<close> appends, and \<^verbatim>\<open>verify_upload\<close> compares the number of
  uploaded records with the number of all rows of the table. So an upload into a table
  that held rows before returns False; and when the validator accepted records and the
  database took them, they are in the table behind the old rows although the result is
  False.
\<close>

theorem upload_into_nonempty_table_fails:
  assumes "st table_name = Some old" and "old \<noteq> []"
  shows "fst (upload_to_database L now df table_name st) = False
       \<and> (\<not> df_empty df \<and> validate_and_clean_data L now df table_name = Inr (Some cleaned, dropped)
            \<and> \<not> df_empty cleaned \<and> db_accepts L table_name old cleaned
          \<longrightarrow> snd (upload_to_database L now df table_name st) table_name = Some (old @ cleaned))"
proof -
  have tr: "table_rows st table_name = old" using assms(1) by (simp add: table_rows_def)
  obtain ok st' where u: "upload_to_database L now df table_name st = (ok, st')"
    by (cases "upload_to_database L now df table_name st")
  have "\<not> ok"
  proof
    assume ok
    with upload_result_cases [OF u] obtain c d st1 where
      w: "to_sql L st table_name c = Inr st1" and s: "st' table_name = st1 table_name"
      and v: "verify_upload L c table_name st'"
      by blast
    from to_sql_same [OF w] s tr have "st' table_name = Some (old @ c)" by simp
    with v assms(2) show False by (simp add: verify_upload_def)
  qed
  with u tr upload_written [of df L now table_name cleaned dropped st] show ?thesis by simp
qed

theorem upload_into_nonempty_table_fails_witness:
  "(empty_store(''tmb_data'' \<mapsto> [tmb_good_cleaned])) ''tmb_data'' = Some [tmb_good_cleaned]
   \<and> [tmb_good_cleaned] \<noteq> []
   \<and> \<not> df_empty [tmb_good]
   \<and> validate_and_clean_data plain_lib 7 [tmb_good] ''tmb_data'' = Inr (Some [tmb_good_cleaned], None)
   \<and> \<not> df_empty [tmb_good_cleaned]
   \<and> db_accepts plain_lib ''tmb_data'' [tmb_good_cleaned] [tmb_good_cleaned]
   \<and> fst (upload_to_database plain_lib 7 [tmb_good] ''tmb_data''
            (empty_store(''tmb_data'' \<mapsto> [tmb_good_cleaned]))) = False
   \<and> snd (upload_to_database plain_lib 7 [tmb_good] ''tmb_data''
            (empty_store(''tmb_data'' \<mapsto> [tmb_good_cleaned]))) ''tmb_data''
       = Some [tmb_good_cleaned, tmb_good_cleaned]"
proof -
  have a: "(empty_store(''tmb_data'' \<mapsto> [tmb_good_cleaned])) ''tmb_data'' = Some [tmb_good_cleaned]"
    by simp
  have b: "[tmb_good_cleaned] \<noteq> []" by simp
  have c: "\<not> df_empty [tmb_good]" by code_simp
  have d: "validate_and_clean_data plain_lib 7 [tmb_good] ''tmb_data'' = Inr (Some [tmb_good_cleaned], None)"
    by code_simp
  have e: "\<not> df_empty [tmb_good_cleaned]" by code_simp
  have f: "db_accepts plain_lib ''tmb_data'' [tmb_good_cleaned] [tmb_good_cleaned]"
    by (simp add: plain_lib_def)
  show ?thesis
    using a b c d e f
      upload_into_nonempty_table_fails
        [where st = "empty_store(''tmb_data'' \<mapsto> [tmb_good_cleaned])"
           and table_name = "''tmb_data''" and old = "[tmb_good_cleaned]" and df = "[tmb_good]"
           and L = plain_lib and now = 7 and cleaned = "[tmb_good_cleaned]" and dropped = None]
    by simp
qed

section \<open>Properties of the fingerprint\<close>

lemma filter_key_distinct:
  "distinct (map f xs) \<Longrightarrow> k \<in> set xs \<Longrightarrow> filter (\<lambda>x. f k = f x) xs = [k]"
  by (induction xs) (auto simp: filter_empty_conv intro: rev_image_eqI)

text \<open>
  Claim C5. The fingerprint is taken of the items sorted by label. Two rows with
  distinct labels that hold the same (label, cell) pairs in different orders have the
  same sorted items, hence the same \<^verbatim>\<open>record_hash\<close>.
\<close>

theorem record_hash_field_order:
  assumes "distinct (map fst r1)" and "mset r1 = mset r2"
  shows "generate_record_hash L r1 = generate_record_hash L r2"
proof -
  have "mset (map fst r1) = mset (map fst r2)" using assms(2) by (metis mset_map)
  then have d2: "distinct (map fst r2)" using assms(1) by (metis mset_eq_imp_distinct_iff)
  have "sort_key fst r1 = sort_key fst r2"
  proof (rule properties_for_sort_key)
    show "mset (sort_key fst r2) = mset r1" using assms(2) by simp
    show "sorted (map fst (sort_key fst r2))" by simp
    fix k assume "k \<in> set (sort_key fst r2)"
    then have k2: "k \<in> set r2" by simp
    then have k1: "k \<in> set r1" using assms(2) by (metis set_mset_mset)
    have "filter (\<lambda>x. fst k = fst x) (sort_key fst r2) = filter (\<lambda>x. fst k = fst x) r2"
      by (rule sort_key_stable [of fst "fst k" r2, unfolded eq_commute [of _ "fst k"]])
    then show "filter (\<lambda>x. fst k = fst x) (sort_key fst r2) = filter (\<lambda>x. fst k = fst x) r1"
      using filter_key_distinct [OF assms(1) k1] filter_key_distinct [OF d2 k2] by simp
  qed
  then show ?thesis by (simp add: generate_record_hash_def sorted_items_def)
qed

theorem record_hash_field_order_witness:
  "distinct (map fst [(''TMB'', PInt 5), (''SampleName'', PStr ''S1'')])
   \<and> mset [(''TMB'', PInt 5), (''SampleName'', PStr ''S1'')]
       = mset [(''SampleName'', PStr ''S1''), (''TMB'', PInt 5)]
   \<and> generate_record_hash plain_lib [(''TMB'', PInt 5), (''SampleName'', PStr ''S1'')]
       = generate_record_hash plain_lib [(''SampleName'', PStr ''S1''), (''TMB'', PInt 5)]"
proof -
  have a: "distinct (map fst [(''TMB'', PInt 5), (''SampleName'', PStr ''S1'')])" by simp
  have b: "mset [(''TMB'', PInt 5), (''SampleName'', PStr ''S1'')]
       = mset [(''SampleName'', PStr ''S1''), (''TMB'', PInt 5)]" by simp
  show ?thesis using a b record_hash_field_order [OF a b, of plain_lib] by simp
qed

section \<open>Properties of the duplicate step\<close>

lemma select_rows_Nil [simp]: "select_rows [] df = []" "select_rows m [] = []"
  by (simp_all add: select_rows_def)

lemma select_rows_Cons [simp]:
  "select_rows (b # m) (r # df) = (if b then r # select_rows m df else select_rows m df)"
  by (simp add: select_rows_def)

lemma scan_eq_masks:
  "select_rows (map Not (duplicated_first seen (map (get_cell ''record_hash'') c))) c
     = fst (first_seen_scan seen c)
   \<and> select_rows (duplicated_first seen (map (get_cell ''record_hash'') c)) c
     = snd (first_seen_scan seen c)"
  by (induction c arbitrary: seen) (auto simp: Let_def split: prod.splits)

lemma drop_duplicates_scan: "drop_duplicates c = fst (first_seen_scan [] c)"
  by (simp add: drop_duplicates_def duplicated_def scan_eq_masks)

lemma duplicates_scan: "select_rows (duplicated c) c = snd (first_seen_scan [] c)"
  by (simp add: duplicated_def scan_eq_masks)

lemma scan_keys:
  "(\<forall>r \<in> set (fst (first_seen_scan seen c)). get_cell ''record_hash'' r \<notin> set seen)
   \<and> distinct (map (get_cell ''record_hash'') (fst (first_seen_scan seen c)))"
proof (induction c arbitrary: seen)
  case Nil
  then show ?case by simp
next
  case (Cons r rs)
  obtain kept dups where
    s: "first_seen_scan (get_cell ''record_hash'' r # seen) rs = (kept, dups)"
    by (cases "first_seen_scan (get_cell ''record_hash'' r # seen) rs")
  from Cons.IH [of "get_cell ''record_hash'' r # seen"] s
  have k: "\<forall>x \<in> set kept. get_cell ''record_hash'' x \<noteq> get_cell ''record_hash'' r
             \<and> get_cell ''record_hash'' x \<notin> set seen"
    and d: "distinct (map (get_cell ''record_hash'') kept)"
    by auto
  from k have "get_cell ''record_hash'' r \<notin> get_cell ''record_hash'' ` set kept"
    by force
  with k d s show ?case by (simp add: Let_def)
qed

lemma scan_find:
  "h \<notin> set seen \<Longrightarrow>
     find (\<lambda>r. get_cell ''record_hash'' r = h) (fst (first_seen_scan seen c))
       = find (\<lambda>r. get_cell ''record_hash'' r = h) c"
proof (induction c arbitrary: seen)
  case Nil
  then show ?case by simp
next
  case (Cons r rs)
  from Cons.IH [of "get_cell ''record_hash'' r # seen"] Cons.prems
  show ?case by (auto simp: Let_def split: prod.splits)
qed

lemma scan_no_dups: "snd (first_seen_scan seen c) = [] \<Longrightarrow> fst (first_seen_scan seen c) = c"
proof (induction c arbitrary: seen)
  case Nil
  then show ?case by simp
next
  case (Cons r rs)
  obtain kept dups where
    s: "first_seen_scan (get_cell ''record_hash'' r # seen) rs = (kept, dups)"
    by (cases "first_seen_scan (get_cell ''record_hash'' r # seen) rs")
  from Cons.prems s have n: "get_cell ''record_hash'' r \<notin> set seen" and e: "dups = []"
    by (auto simp: Let_def split: if_splits)
  from Cons.IH [of "get_cell ''record_hash'' r # seen"] s e have "kept = rs" by simp
  with s n show ?case by (simp add: Let_def)
qed

lemma map_of_set_cell: "map_of (set_cell k v r) = (map_of r)(k \<mapsto> v)"
  by (induction r) (auto simp: fun_eq_iff)

lemma get_cell_set_cell:
  "get_cell l (set_cell k v r) = (if l = k then v else get_cell l r)"
  by (simp add: get_cell_def map_of_set_cell)

lemma get_cell_reindex:
  "l \<in> set cols \<Longrightarrow> get_cell l (reindex cols r) = get_cell l r"
proof -
  assume "l \<in> set cols"
  then have "map_of (reindex cols r) l = Some (get_cell l r)"
    by (induction cols) (auto simp: reindex_def)
  then show ?thesis by (simp add: get_cell_def)
qed

lemma columns_reindex: "rows \<noteq> [] \<Longrightarrow> columns (map (reindex cols) rows) = cols"
  by (cases rows) (simp_all add: columns_def reindex_def comp_def)

lemma fst_set_cell: "fst ` set (set_cell k v r) = insert k (fst ` set r)"
proof (induction r)
  case Nil
  then show ?case by simp
next
  case (Cons p r)
  obtain k' v' where p: "p = (k', v')" by (cases p)
  show ?case
  proof (cases "k' = k")
    case True
    with p show ?thesis by simp
  next
    case False
    with p Cons.IH show ?thesis by (simp add: insert_commute)
  qed
qed


lemma set_cell_nonempty [simp]: "set_cell k v r \<noteq> []"
  by (cases r) (auto split: if_splits)

lemma check_cells_labels:
  "check_cells L sch r = Inr (msgs, sr) \<Longrightarrow> map fst sr = map fst r"
proof (induction r arbitrary: msgs sr)
  case Nil
  then show ?case by simp
next
  case (Cons p r)
  obtain col val where p: "p = (col, val)" by (cases p)
  from Cons.prems p obtain msgs' sr' v where
    "check_cells L sch r = Inr (msgs', sr')" and "sr = (col, v) # sr'"
    by (auto split: option.splits sum.splits prod.splits)
  with Cons.IH p show ?case by simp
qed

lemma check_rows_nonempty:
  "check_rows L sch idx df = Inr (c, d) \<Longrightarrow> \<forall>r \<in> set df. r \<noteq> [] \<Longrightarrow> \<forall>r \<in> set c. r \<noteq> []"
proof (induction df arbitrary: idx c d)
  case Nil
  then show ?case by simp
next
  case (Cons r rs)
  from Cons.prems(1) obtain msgs sr c' d' where
    cc: "check_cells L sch r = Inr (msgs, sr)"
    and cr: "check_rows L sch (Suc idx) rs = Inr (c', d')"
    and c: "c = (if msgs \<noteq> [] then c' else sr # c')"
    by (auto split: sum.splits prod.splits if_splits)
  from Cons.IH [OF cr] Cons.prems(2) have "\<forall>r \<in> set c'. r \<noteq> []" by simp
  moreover from check_cells_labels [OF cc] Cons.prems(2) have "sr \<noteq> []" by auto
  ultimately show ?case using c by simp
qed

lemma add_metadata_nonempty: "\<forall>r \<in> set (add_metadata L now df). r \<noteq> []"
  by (simp add: add_metadata_def Let_def)

lemma not_df_empty: "c \<noteq> [] \<Longrightarrow> \<forall>r \<in> set c. r \<noteq> [] \<Longrightarrow> \<not> df_empty c"
  by (cases c) (simp_all add: df_empty_def columns_def)

lemma dedup_step_accepted:
  "\<not> df_empty c \<Longrightarrow> fst (dedup_step (Some c) d) = Some (fst (first_seen_scan [] c))"
  by (simp add: dedup_step_def Let_def duplicates_scan drop_duplicates_scan scan_no_dups)

lemma dedup_step_rejected:
  "\<not> df_empty c \<Longrightarrow>
     frame_rows (snd (dedup_step (Some c) d))
       = (if snd (first_seen_scan [] c) = [] then frame_rows d
          else case d of
                 None \<Rightarrow> assign_reason (snd (first_seen_scan [] c))
               | Some dd \<Rightarrow> pd_concat dd (assign_reason (snd (first_seen_scan [] c))))"
  by (simp add: dedup_step_def Let_def duplicates_scan frame_rows_def split: option.splits)

lemma columns_assign_reason:
  "dups \<noteq> [] \<Longrightarrow> ''reason'' \<in> set (columns (assign_reason dups))"
  by (cases dups) (simp_all add: columns_def assign_reason_def fst_set_cell)

lemma pd_concat_length: "length (pd_concat a b) = length a + length b"
  by (simp add: pd_concat_def Let_def)

lemma pd_concat_nth:
  "i < length b \<Longrightarrow>
     pd_concat a b ! (length a + i)
       = reindex (columns a @ filter (\<lambda>c. c \<notin> set (columns a)) (columns b)) (b ! i)"
  by (simp add: pd_concat_def Let_def nth_append)

lemma pd_concat_columns:
  "b \<noteq> [] \<Longrightarrow>
     columns (pd_concat a b) = columns a @ filter (\<lambda>c. c \<notin> set (columns a)) (columns b)"
  using columns_reindex [of "a @ b"] by (simp add: pd_concat_def Let_def)

lemma rejected_duplicates:
  assumes "\<not> df_empty c" and "i < length (snd (first_seen_scan [] c))"
  shows "get_cell ''reason'' (frame_rows (snd (dedup_step (Some c) d)) ! (length (frame_rows d) + i))
           = PStr ''Duplicate record''
       \<and> (\<forall>l \<in> set (columns (frame_rows (snd (dedup_step (Some c) d)))). l \<noteq> ''reason'' \<longrightarrow>
            get_cell l (frame_rows (snd (dedup_step (Some c) d)) ! (length (frame_rows d) + i))
              = get_cell l (snd (first_seen_scan [] c) ! i))"
proof -
  let ?dups = "snd (first_seen_scan [] c)"
  let ?v = "PStr ''Duplicate record''"
  from assms(2) have ne: "?dups \<noteq> []" by auto
  have n: "assign_reason ?dups ! i = set_cell ''reason'' ?v (?dups ! i)"
    using assms(2) by (simp add: assign_reason_def)
  have la: "length (assign_reason ?dups) = length ?dups" by (simp add: assign_reason_def)
  have ane: "assign_reason ?dups \<noteq> []" using ne by (simp add: assign_reason_def)
  show ?thesis
  proof (cases d)
    case None
    then have r: "frame_rows (snd (dedup_step (Some c) d)) = assign_reason ?dups"
      using dedup_step_rejected [OF assms(1), of d] ne by simp
    from None have z: "frame_rows d = []" by (simp add: frame_rows_def)
    show ?thesis unfolding r z using n by (simp add: get_cell_set_cell)
  next
    case (Some dd)
    then have r: "frame_rows (snd (dedup_step (Some c) d)) = pd_concat dd (assign_reason ?dups)"
      using dedup_step_rejected [OF assms(1), of d] ne by simp
    from Some have z: "frame_rows d = dd" by (simp add: frame_rows_def)
    let ?cols = "columns dd @ filter (\<lambda>c. c \<notin> set (columns dd)) (columns (assign_reason ?dups))"
    have nth: "pd_concat dd (assign_reason ?dups) ! (length dd + i)
                 = reindex ?cols (set_cell ''reason'' ?v (?dups ! i))"
      using pd_concat_nth [of i "assign_reason ?dups" dd] assms(2) la n by simp
    have cols: "columns (pd_concat dd (assign_reason ?dups)) = ?cols"
      using ane by (rule pd_concat_columns)
    have rc: "''reason'' \<in> set ?cols"
      using columns_assign_reason [OF ne] by auto
    show ?thesis unfolding r z nth cols
      using rc by (simp add: get_cell_reindex get_cell_set_cell)
  qed
qed

text \<open>
  Claim C4. On a frame of cleaned rows the duplicate step of the code keeps exactly
  what the scan of the specification keeps: for every hash the first row of the input
  with that hash is the row kept for it, and the kept rows have pairwise different
  hashes. The rejected frame grows by one record for every duplicate, in order; each
  of them has the reason \<^verbatim>\<open>Duplicate record\<close> and, under every other column of the
  rejected frame, the cell of the duplicate. Finally the accepted frame that
  \<^verbatim>\<open>validate_and_clean_data\<close> returns has no two rows with the same \<^verbatim>\<open>record_hash\<close>.
\<close>

theorem dedup_first_seen_wins:
  "(\<not> df_empty c \<and> dedup_step (Some c) d = (acc, rej) \<longrightarrow>
      acc = Some (fst (first_seen_scan [] c))
    \<and> (\<forall>h. find (\<lambda>r. get_cell ''record_hash'' r = h) (fst (first_seen_scan [] c))
             = find (\<lambda>r. get_cell ''record_hash'' r = h) c)
    \<and> distinct (map (get_cell ''record_hash'') (fst (first_seen_scan [] c)))
    \<and> length (frame_rows rej) = length (frame_rows d) + length (snd (first_seen_scan [] c))
    \<and> (\<forall>i < length (snd (first_seen_scan [] c)).
          get_cell ''reason'' (frame_rows rej ! (length (frame_rows d) + i)) = PStr ''Duplicate record''
        \<and> (\<forall>l \<in> set (columns (frame_rows rej)). l \<noteq> ''reason'' \<longrightarrow>
              get_cell l (frame_rows rej ! (length (frame_rows d) + i))
                = get_cell l (snd (first_seen_scan [] c) ! i))))
   \<and> (validate_and_clean_data L now df table_name = Inr (Some accepted, rejected) \<longrightarrow>
        distinct (map (get_cell ''record_hash'') accepted))"
proof (intro conjI impI)
  assume h: "\<not> df_empty c \<and> dedup_step (Some c) d = (acc, rej)"
  then have e: "\<not> df_empty c" and a: "acc = fst (dedup_step (Some c) d)"
    and r: "rej = snd (dedup_step (Some c) d)" by simp_all
  show "acc = Some (fst (first_seen_scan [] c))"
    using a dedup_step_accepted [OF e] by simp
  show "\<forall>h. find (\<lambda>r. get_cell ''record_hash'' r = h) (fst (first_seen_scan [] c))
             = find (\<lambda>r. get_cell ''record_hash'' r = h) c"
    by (simp add: scan_find)
  show "distinct (map (get_cell ''record_hash'') (fst (first_seen_scan [] c)))"
    using scan_keys [of "[]" c] by simp
  show "length (frame_rows rej) = length (frame_rows d) + length (snd (first_seen_scan [] c))"
    unfolding r dedup_step_rejected [OF e]
    by (cases d) (simp_all add: frame_rows_def assign_reason_def pd_concat_length)
  show "\<forall>i < length (snd (first_seen_scan [] c)).
          get_cell ''reason'' (frame_rows rej ! (length (frame_rows d) + i)) = PStr ''Duplicate record''
        \<and> (\<forall>l \<in> set (columns (frame_rows rej)). l \<noteq> ''reason'' \<longrightarrow>
              get_cell l (frame_rows rej ! (length (frame_rows d) + i))
                = get_cell l (snd (first_seen_scan [] c) ! i))"
    unfolding r using rejected_duplicates [OF e] by blast
next
  assume v: "validate_and_clean_data L now df table_name = Inr (Some accepted, rejected)"
  then obtain cr dr where
    cr: "check_rows L (get_table_schema (table_type_of table_name)) 0 (add_metadata L now df)
           = Inr (cr, dr)"
    and ds: "dedup_step (frame_or_none cr) (frame_or_none dr) = (Some accepted, rejected)"
    by (auto simp: validate_and_clean_data_def Let_def split: if_splits sum.splits prod.splits)
  have ne: "cr \<noteq> []"
  proof
    assume "cr = []"
    with ds show False by (simp add: frame_or_none_def dedup_step_def)
  qed
  from check_rows_nonempty [OF cr add_metadata_nonempty] ne have e: "\<not> df_empty cr"
    by (simp add: not_df_empty)
  from ds ne have "fst (dedup_step (Some cr) (frame_or_none dr)) = Some accepted"
    by (simp add: frame_or_none_def)
  with dedup_step_accepted [OF e, of "frame_or_none dr"]
  have "accepted = fst (first_seen_scan [] cr)" by simp
  then show "distinct (map (get_cell ''record_hash'') accepted)"
    using scan_keys [of "[]" cr] by simp
qed

theorem dedup_first_seen_wins_witness:
  "\<not> df_empty [tmb_good_cleaned, tmb_good_cleaned]
   \<and> dedup_step (Some [tmb_good_cleaned, tmb_good_cleaned]) None
        = (Some [tmb_good_cleaned], Some [tmb_good_duplicate])
   \<and> validate_and_clean_data plain_lib 7 [tmb_good, tmb_good] ''tmb_data''
        = Inr (Some [tmb_good_cleaned], Some [tmb_good_duplicate])
   \<and> Some [tmb_good_cleaned] = Some (fst (first_seen_scan [] [tmb_good_cleaned, tmb_good_cleaned]))
   \<and> length (frame_rows (Some [tmb_good_duplicate]))
        = length (frame_rows None) + length (snd (first_seen_scan [] [tmb_good_cleaned, tmb_good_cleaned]))
   \<and> distinct (map (get_cell ''record_hash'') [tmb_good_cleaned])"
proof -
  have a: "\<not> df_empty [tmb_good_cleaned, tmb_good_cleaned]" by code_simp
  have b: "dedup_step (Some [tmb_good_cleaned, tmb_good_cleaned]) None
        = (Some [tmb_good_cleaned], Some [tmb_good_duplicate])" by code_simp
  have c: "validate_and_clean_data plain_lib 7 [tmb_good, tmb_good] ''tmb_data''
        = Inr (Some [tmb_good_cleaned], Some [tmb_good_duplicate])" by code_simp
  show ?thesis
    using a b c
      dedup_first_seen_wins
        [where c = "[tmb_good_cleaned, tmb_good_cleaned]" and d = None
           and acc = "Some [tmb_good_cleaned]" and rej = "Some [tmb_good_duplicate]"
           and L = plain_lib and now = 7 and df = "[tmb_good, tmb_good]"
           and table_name = "''tmb_data''" and accepted = "[tmb_good_cleaned]"
           and rejected = "Some [tmb_good_duplicate]"]
    by simp
qed

section \<open>The timestamp and the fingerprint\<close>

lemma filter_set_cell_hd:
  "hd (filter (\<lambda>x. fst x = k) (set_cell k v r)) = (k, v)"
  by (induction r) auto

lemma sorted_items_set_cell_neq:
  assumes "v1 \<noteq> v2"
  shows "sorted_items (set_cell k v1 r) \<noteq> sorted_items (set_cell k v2 r)"
proof
  assume "sorted_items (set_cell k v1 r) = sorted_items (set_cell k v2 r)"
  then have "filter (\<lambda>x. fst x = k) (sort_key fst (set_cell k v1 r))
               = filter (\<lambda>x. fst x = k) (sort_key fst (set_cell k v2 r))"
    by (simp add: sorted_items_def)
  then have "filter (\<lambda>x. fst x = k) (set_cell k v1 r) = filter (\<lambda>x. fst x = k) (set_cell k v2 r)"
    by (simp only: sort_key_stable)
  then have "hd (filter (\<lambda>x. fst x = k) (set_cell k v1 r))
               = hd (filter (\<lambda>x. fst x = k) (set_cell k v2 r))"
    by simp
  with assms show False by (simp add: filter_set_cell_hd)
qed

lemma set_cell_mem: "(k, v) \<in> set (set_cell k v r)"
  by (induction r) auto

lemma same_batch_duplicate:
  assumes "r \<noteq> []"
    and "check_cells L (get_table_schema (table_type_of table_name))
           (set_cell ''record_hash''
              (PStr (generate_record_hash L (set_cell ''upload_timestamp'' (PTimestamp now) r)))
              (set_cell ''upload_timestamp'' (PTimestamp now) r)) = Inr ([], sr)"
  shows "validate_and_clean_data L now [r, r] table_name
           = Inr (Some [sr], Some [set_cell ''reason'' (PStr ''Duplicate record'') sr])"
proof -
  from check_cells_labels [OF assms(2)] have "sr \<noteq> []" by auto
  then have e: "\<not> df_empty [sr, sr]" by (simp add: df_empty_def columns_def)
  have d: "dedup_step (Some [sr, sr]) None
             = (Some [sr], Some [set_cell ''reason'' (PStr ''Duplicate record'') sr])"
    using e by (simp add: dedup_step_def Let_def duplicated_def drop_duplicates_def assign_reason_def)
  have n: "\<not> df_empty [r, r]" using assms(1) by (simp add: df_empty_def columns_def)
  show ?thesis
    using n assms(2) d
    by (simp add: validate_and_clean_data_def Let_def add_metadata_def frame_or_none_def)
qed

text \<open>
  The fingerprint of a row is taken after the column \<^verbatim>\<open>upload_timestamp\<close> is set: the
  \<^verbatim>\<open>record_hash\<close> of every row is the digest of the sorted items of the row with the
  clock reading of the run in it, the timestamp item is among the hashed items, and for
  two different clock readings the hashed contents of the same record differ. Whether
  the digests of two different contents differ is a property of MD5 and is not decided
  here.
\<close>

lemma record_hash_covers_timestamp:
  "map (get_cell ''record_hash'') (add_metadata L now df)
     = map (\<lambda>r. PStr (generate_record_hash L (set_cell ''upload_timestamp'' (PTimestamp now) r))) df
   \<and> (''upload_timestamp'', PTimestamp now)
       \<in> set (sorted_items (set_cell ''upload_timestamp'' (PTimestamp now) r))
   \<and> (t1 \<noteq> t2 \<longrightarrow>
        sorted_items (set_cell ''upload_timestamp'' (PTimestamp t1) r)
          \<noteq> sorted_items (set_cell ''upload_timestamp'' (PTimestamp t2) r))"
  by (simp add: add_metadata_def Let_def get_cell_set_cell sorted_items_def [symmetric]
        sorted_items_set_cell_neq)
     (simp add: sorted_items_def set_cell_mem)

section \<open>The validator and the clock\<close>

lemma agree_off_refl: "agree_off M r r"
  by (simp add: agree_off_def list_all2_refl)

lemma agree_off_Nil [simp]: "agree_off M [] []"
  by (simp add: agree_off_def)

lemma agree_off_Cons [simp]:
  "agree_off M (p # r1) (q # r2)
     \<longleftrightarrow> fst p = fst q \<and> (fst p \<notin> M \<longrightarrow> snd p = snd q) \<and> agree_off M r1 r2"
  by (simp add: agree_off_def)

lemma agree_off_induct [consumes 1, case_names Nil Cons]:
  assumes "agree_off M r1 r2"
    and "P [] []"
    and "\<And>k v1 v2 r1 r2. agree_off M r1 r2 \<Longrightarrow> P r1 r2 \<Longrightarrow> (k \<notin> M \<Longrightarrow> v1 = v2)
           \<Longrightarrow> P ((k, v1) # r1) ((k, v2) # r2)"
  shows "P r1 r2"
  using assms(1) unfolding agree_off_def
proof (induction rule: list_all2_induct)
  case Nil
  then show ?case by (rule assms(2))
next
  case (Cons p r1 q r2)
  obtain k v1 where p: "p = (k, v1)" by (cases p)
  obtain k' v2 where q: "q = (k', v2)" by (cases q)
  from Cons p q show ?case using assms(3) [of r1 r2 k v1 v2] by (simp add: agree_off_def)
qed

lemma agree_off_get_cell:
  "agree_off M r1 r2 \<Longrightarrow> l \<notin> M \<Longrightarrow> get_cell l r1 = get_cell l r2"
  by (induction rule: agree_off_induct) (auto simp: get_cell_def)

lemma check_cells_agree:
  assumes "agree_off M r1 r2" and "\<forall>k \<in> M. map_of sch k = None"
  shows "case check_cells L sch r1 of
           Inl e \<Rightarrow> check_cells L sch r2 = Inl e
         | Inr (msgs, s1) \<Rightarrow> (\<exists>s2. check_cells L sch r2 = Inr (msgs, s2) \<and> agree_off M s1 s2)"
  using assms
proof (induction rule: agree_off_induct)
  case Nil
  then show ?case by simp
next
  case (Cons k v1 v2 r1 r2)
  show ?case
  proof (cases "map_of sch k")
    case None
    with Cons show ?thesis by (auto split: sum.splits prod.splits)
  next
    case (Some rule)
    with Cons.prems have "k \<notin> M" by auto
    with Cons.hyps(2) have "v1 = v2" by simp
    with Some Cons show ?thesis by (auto split: sum.splits prod.splits)
  qed
qed

lemma set_cell_insort_same:
  "set_cell k v (insort_key fst (k, v') s) = insort_key fst (k, v) s"
  by (induction s) auto

lemma set_cell_insort_other:
  "k' \<noteq> k \<Longrightarrow> k \<in> fst ` set s \<Longrightarrow>
     set_cell k v (insort_key fst (k', v') s) = insort_key fst (k', v') (set_cell k v s)"
proof (induction s)
  case Nil
  then show ?case by simp
next
  case (Cons y ys)
  show ?case
  proof (cases "fst y = k")
    case True
    with Cons.prems(1) show ?thesis by (cases y) auto
  next
    case False
    with Cons.prems have "k \<in> fst ` set ys" by auto
    with Cons.IH Cons.prems(1) have
      "set_cell k v (insort_key fst (k', v') ys) = insort_key fst (k', v') (set_cell k v ys)"
      by simp
    with False Cons.prems(1) show ?thesis by (cases y) auto
  qed
qed

lemma set_sort_key_fst: "fst ` set (sort_key fst a) = fst ` set a"
  by simp

lemma sort_set_cell_commute:
  "k \<in> fst ` set a \<Longrightarrow> sort_key fst (set_cell k v a) = set_cell k v (sort_key fst a)"
proof (induction a)
  case Nil
  then show ?case by simp
next
  case (Cons p a)
  obtain k' v' where p: "p = (k', v')" by (cases p)
  show ?case
  proof (cases "k' = k")
    case True
    with p show ?thesis by (simp add: set_cell_insort_same)
  next
    case False
    with Cons.prems p have m: "k \<in> fst ` set a" by auto
    from Cons.IH [OF m] have ih: "sort_key fst (set_cell k v a) = set_cell k v (sort_key fst a)" .
    have "k \<in> fst ` set (sort_key fst a)" using m by simp
    with False have "set_cell k v (insort_key fst (k', v') (sort_key fst a))
                       = insort_key fst (k', v') (set_cell k v (sort_key fst a))"
      by (rule set_cell_insort_other)
    with False p ih show ?thesis by simp
  qed
qed

lemma set_cell_twice: "set_cell k v2 (set_cell k v1 r) = set_cell k v2 r"
  by (induction r) auto

lemma stamped_has_label: "''upload_timestamp'' \<in> fst ` set (stamped now r)"
  by (simp add: stamped_def fst_set_cell)

lemma sorted_stamped_other_clock:
  "sorted_items (stamped t2 r) = set_cell ''upload_timestamp'' (PTimestamp t2) (sorted_items (stamped t1 r))"
proof -
  have "stamped t2 r = set_cell ''upload_timestamp'' (PTimestamp t2) (stamped t1 r)"
    by (simp add: stamped_def set_cell_twice)
  then show ?thesis
    using sort_set_cell_commute
      [where k = "''upload_timestamp''" and a = "stamped t1 r" and v = "PTimestamp t2",
       OF stamped_has_label]
    by (simp add: sorted_items_def)
qed

lemma content_equality_clock_independent:
  "sorted_items (stamped t1 r) = sorted_items (stamped t1 r') \<Longrightarrow>
     sorted_items (stamped t2 r) = sorted_items (stamped t2 r')"
  by (simp add: sorted_stamped_other_clock [where ?t2.0 = t2 and ?t1.0 = t1])

lemma agree_off_labels: "agree_off M r1 r2 \<Longrightarrow> map fst r1 = map fst r2"
  by (induction rule: agree_off_induct) auto

lemma agree_off_set_cell_gen:
  "agree_off M d1 d2 \<Longrightarrow> (k \<notin> M \<Longrightarrow> v1 = v2) \<Longrightarrow>
     agree_off M (set_cell k v1 d1) (set_cell k v2 d2)"
  by (induction rule: agree_off_induct) auto

lemma fold_set_cell_agree_off:
  "agree_off M r1 r2 \<Longrightarrow> agree_off M d1 d2 \<Longrightarrow>
     agree_off M (fold (\<lambda>(k, v) d. set_cell k v d) r1 d1)
                 (fold (\<lambda>(k, v) d. set_cell k v d) r2 d2)"
proof (induction arbitrary: d1 d2 rule: agree_off_induct)
  case Nil
  then show ?case by simp
next
  case (Cons k v1 v2 r1 r2)
  have "agree_off M (set_cell k v1 d1) (set_cell k v2 d2)"
    using Cons.prems Cons.hyps(2) by (rule agree_off_set_cell_gen)
  with Cons.IH show ?case by simp
qed

lemma dropped_record_agree_off:
  "agree_off M r1 r2 \<Longrightarrow>
     agree_off M (dropped_record idx msgs r1) (dropped_record idx msgs r2)"
  unfolding dropped_record_def by (rule fold_set_cell_agree_off) (simp_all add: agree_off_refl)

lemma reindex_agree_off:
  "agree_off M r1 r2 \<Longrightarrow> agree_off M (reindex cols r1) (reindex cols r2)"
  by (induction cols) (simp_all add: reindex_def agree_off_get_cell)

lemma check_cells_unbound:
  "map_of sch l = None \<Longrightarrow> check_cells L sch r = Inr (msgs, s) \<Longrightarrow> get_cell l s = get_cell l r"
proof (induction r arbitrary: msgs s)
  case Nil
  then show ?case by simp
next
  case (Cons p r)
  obtain col val where p: "p = (col, val)" by (cases p)
  from Cons.prems(2) p obtain msgs' s' v where
    r: "check_cells L sch r = Inr (msgs', s')" and s: "s = (col, v) # s'"
    and v: "map_of sch col = None \<longrightarrow> v = val"
    by (auto split: option.splits sum.splits prod.splits)
  from Cons.IH [OF Cons.prems(1) r] have "get_cell l s' = get_cell l r" .
  with s p v Cons.prems(1) show ?case by (auto simp: get_cell_def)
qed

lemma check_rows_paired:
  assumes "list_all2 (paired K) df1 df2"
    and "\<forall>k \<in> metadata_columns. map_of sch k = None"
  shows "case check_rows L sch idx df1 of
           Inl e \<Rightarrow> check_rows L sch idx df2 = Inl e
         | Inr (c1, d1) \<Rightarrow>
             (\<exists>c2 d2. check_rows L sch idx df2 = Inr (c2, d2)
                \<and> list_all2 (paired K) c1 c2
                \<and> list_all2 (agree_off metadata_columns) d1 d2)"
  using assms(1)
proof (induction arbitrary: idx rule: list_all2_induct)
  case Nil
  then show ?case by simp
next
  case (Cons r1 df1 r2 df2)
  from Cons(1) have ag: "agree_off metadata_columns r1 r2"
    and k: "K (get_cell ''record_hash'' r1) (get_cell ''record_hash'' r2)"
    by (simp_all add: paired_def)
  from assms(2) have rh: "map_of sch ''record_hash'' = None"
    by (simp add: metadata_columns_def)
  note cc = check_cells_agree [OF ag assms(2), of L]
  note ih = Cons.IH [of "Suc idx"]
  show ?case
  proof (cases "check_cells L sch r1")
    case (Inl e)
    with cc show ?thesis by simp
  next
    case (Inr ms)
    obtain msgs s1 where ms: "ms = (msgs, s1)" by (cases ms)
    with Inr cc obtain s2 where
      c1: "check_cells L sch r1 = Inr (msgs, s1)"
      and c2: "check_cells L sch r2 = Inr (msgs, s2)"
      and a: "agree_off metadata_columns s1 s2"
      by auto
    from check_cells_unbound [OF rh c1] check_cells_unbound [OF rh c2] k a
    have ps: "paired K s1 s2" by (simp add: paired_def)
    show ?thesis
    proof (cases "check_rows L sch (Suc idx) df1")
      case (Inl e)
      with ih c1 c2 show ?thesis by simp
    next
      case (Inr cd)
      obtain c1' d1' where cd: "cd = (c1', d1')" by (cases cd)
      with Inr ih obtain c2' d2' where
        r2: "check_rows L sch (Suc idx) df2 = Inr (c2', d2')"
        and ac: "list_all2 (paired K) c1' c2'"
        and ad: "list_all2 (agree_off metadata_columns) d1' d2'"
        by auto
      from ag have dr: "agree_off metadata_columns
          (dropped_record idx msgs r1) (dropped_record idx msgs r2)"
        by (rule dropped_record_agree_off)
      show ?thesis
        using c1 c2 Inr cd r2 ac ad ps dr by simp
    qed
  qed
qed

lemma related_membership:
  assumes bi: "\<And>a b a' b'. K a b \<Longrightarrow> K a' b' \<Longrightarrow> (a = a') = (b = b')"
  shows "list_all2 K s1 s2 \<Longrightarrow> K a b \<Longrightarrow> (a \<in> set s1) = (b \<in> set s2)"
proof (induction rule: list_all2_induct)
  case Nil
  then show ?case by simp
next
  case (Cons x xs y ys)
  from bi [OF Cons.prems Cons.hyps(1)] Cons.IH [OF Cons.prems] show ?case by simp
qed

lemma duplicated_first_related:
  assumes bi: "\<And>a b a' b'. K a b \<Longrightarrow> K a' b' \<Longrightarrow> (a = a') = (b = b')"
  shows "list_all2 K ks1 ks2 \<Longrightarrow> list_all2 K seen1 seen2 \<Longrightarrow>
           duplicated_first seen1 ks1 = duplicated_first seen2 ks2"
proof (induction arbitrary: seen1 seen2 rule: list_all2_induct)
  case Nil
  then show ?case by simp
next
  case (Cons x xs y ys)
  have m: "(x \<in> set seen1) = (y \<in> set seen2)"
    using bi Cons.prems Cons.hyps(1) by (rule related_membership)
  have "list_all2 K (x # seen1) (y # seen2)" using Cons.hyps(1) Cons.prems by simp
  from Cons.IH [OF this] m show ?case by simp
qed

lemma duplicated_related:
  assumes bi: "\<And>a b a' b'. K a b \<Longrightarrow> K a' b' \<Longrightarrow> (a = a') = (b = b')"
    and "list_all2 (paired K) c1 c2"
  shows "duplicated c1 = duplicated c2"
proof -
  from assms(2) have "list_all2 K (map (get_cell ''record_hash'') c1) (map (get_cell ''record_hash'') c2)"
    by (simp add: list_all2_map1 list_all2_map2 paired_def list_all2_conv_all_nth)
  then show ?thesis
    unfolding duplicated_def
    using duplicated_first_related [of K _ _ "[]" "[]"] bi by blast
qed

lemma select_rows_related:
  "list_all2 P c1 c2 \<Longrightarrow> list_all2 P (select_rows m c1) (select_rows m c2)"
proof (induction arbitrary: m rule: list_all2_induct)
  case Nil
  then show ?case by simp
next
  case (Cons x xs y ys)
  then show ?case by (cases m) simp_all
qed

lemma columns_related:
  "list_all2 (agree_off M) c1 c2 \<Longrightarrow> columns c1 = columns c2"
  by (cases c1; cases c2) (auto simp: columns_def dest: agree_off_labels)

lemma df_empty_related:
  "list_all2 (agree_off M) c1 c2 \<Longrightarrow> df_empty c1 = df_empty c2"
  using columns_related [of M c1 c2] by (auto simp: df_empty_def)

lemma frame_or_none_related:
  "list_all2 (agree_off metadata_columns) d1 d2 \<Longrightarrow>
     same_frame (frame_or_none d1) (frame_or_none d2)"
  by (auto simp: same_frame_def frame_or_none_def)

lemma assign_reason_related:
  "list_all2 (agree_off M) b1 b2 \<Longrightarrow> list_all2 (agree_off M) (assign_reason b1) (assign_reason b2)"
  unfolding assign_reason_def list_all2_map1 list_all2_map2
  by (erule list_all2_mono) (rule agree_off_set_cell_gen, simp_all)

lemma pd_concat_related:
  assumes "list_all2 (agree_off M) a1 a2" and "list_all2 (agree_off M) b1 b2"
  shows "list_all2 (agree_off M) (pd_concat a1 b1) (pd_concat a2 b2)"
proof -
  have c: "columns a1 = columns a2" "columns b1 = columns b2"
    using assms by (simp_all add: columns_related)
  have ab: "list_all2 (agree_off M) (a1 @ b1) (a2 @ b2)"
    using assms by (simp add: list_all2_appendI)
  have "list_all2 (agree_off M) (map (reindex cols) (a1 @ b1)) (map (reindex cols) (a2 @ b2))"
    for cols
    unfolding list_all2_map1 list_all2_map2
    using ab by (rule list_all2_mono) (rule reindex_agree_off)
  then show ?thesis
    by (simp add: pd_concat_def Let_def c del: map_append)
qed

lemma paired_agree: "list_all2 (paired K) c1 c2 \<Longrightarrow> list_all2 (agree_off metadata_columns) c1 c2"
  by (erule list_all2_mono) (simp add: paired_def)

lemma dedup_step_keeps:
  "c \<noteq> [] \<Longrightarrow> df_empty c \<or> select_rows (duplicated c) c = [] \<Longrightarrow>
     dedup_step (frame_or_none c) d = (Some c, d)"
  by (auto simp: dedup_step_def frame_or_none_def Let_def)

lemma dedup_step_related:
  assumes bi: "\<And>a b a' b'. K a b \<Longrightarrow> K a' b' \<Longrightarrow> (a = a') = (b = b')"
    and pc: "list_all2 (paired K) c1 c2"
    and ad: "list_all2 (agree_off metadata_columns) d1 d2"
  shows "same_frame (fst (dedup_step (frame_or_none c1) (frame_or_none d1)))
                    (fst (dedup_step (frame_or_none c2) (frame_or_none d2)))
       \<and> same_frame (snd (dedup_step (frame_or_none c1) (frame_or_none d1)))
                    (snd (dedup_step (frame_or_none c2) (frame_or_none d2)))"
proof -
  let ?M = metadata_columns
  from pc have ac: "list_all2 (agree_off ?M) c1 c2" by (rule paired_agree)
  have fd: "same_frame (frame_or_none d1) (frame_or_none d2)"
    using ad by (rule frame_or_none_related)
  have fc: "same_frame (frame_or_none c1) (frame_or_none c2)"
    using ac by (rule frame_or_none_related)
  have n: "(c1 = []) = (c2 = [])" using ac by auto
  have nd: "(d1 = []) = (d2 = [])" using ad by auto
  have e: "df_empty c1 = df_empty c2" using ac by (rule df_empty_related)
  have m: "duplicated c1 = duplicated c2" using bi pc by (rule duplicated_related)
  define dup1 where "dup1 = select_rows (duplicated c1) c1"
  define dup2 where "dup2 = select_rows (duplicated c2) c2"
  have du: "list_all2 (agree_off ?M) dup1 dup2"
    unfolding dup1_def dup2_def m [symmetric] using ac by (rule select_rows_related)
  then have dn: "(dup1 = []) = (dup2 = [])" by auto
  have ke: "list_all2 (agree_off ?M) (drop_duplicates c1) (drop_duplicates c2)"
    unfolding drop_duplicates_def m [symmetric] using ac by (rule select_rows_related)
  have ar: "list_all2 (agree_off ?M) (assign_reason dup1) (assign_reason dup2)"
    using du by (rule assign_reason_related)
  have pr: "list_all2 (agree_off ?M) (pd_concat d1 (assign_reason dup1))
              (pd_concat d2 (assign_reason dup2))"
    using ad ar by (rule pd_concat_related)
  show ?thesis
  proof (cases "c1 = []")
    case True
    with n fd show ?thesis by (simp add: frame_or_none_def dedup_step_def same_frame_def)
  next
    case False
    with n have c2: "c2 \<noteq> []" by simp
    show ?thesis
    proof (cases "df_empty c1 \<or> dup1 = []")
      case True
      with e dn have t2: "df_empty c2 \<or> dup2 = []" by auto
      have k1: "dedup_step (frame_or_none c1) (frame_or_none d1) = (Some c1, frame_or_none d1)"
        using False True unfolding dup1_def by (rule dedup_step_keeps)
      have k2: "dedup_step (frame_or_none c2) (frame_or_none d2) = (Some c2, frame_or_none d2)"
        using c2 t2 unfolding dup2_def by (rule dedup_step_keeps)
      show ?thesis unfolding k1 k2 using ac fd by (simp add: same_frame_def)
    next
      case False
      with e dn have f2: "\<not> df_empty c2" "dup2 \<noteq> []" by auto
      from False have f1: "\<not> df_empty c1" "dup1 \<noteq> []" by auto
      have s1: "dedup_step (frame_or_none c1) (frame_or_none d1)
                  = (Some (drop_duplicates c1),
                     Some (if d1 = [] then assign_reason dup1
                           else pd_concat d1 (assign_reason dup1)))"
        using \<open>c1 \<noteq> []\<close> f1
        by (simp add: frame_or_none_def dedup_step_def Let_def dup1_def)
      have s2: "dedup_step (frame_or_none c2) (frame_or_none d2)
                  = (Some (drop_duplicates c2),
                     Some (if d2 = [] then assign_reason dup2
                           else pd_concat d2 (assign_reason dup2)))"
        using c2 f2
        by (simp add: frame_or_none_def dedup_step_def Let_def dup2_def)
      show ?thesis unfolding s1 s2 using ke ar pr nd by (simp add: same_frame_def)
    qed
  qed
qed

lemma add_metadata_paired:
  "list_all2
     (paired (\<lambda>a b. \<exists>r \<in> set df. a = PStr (generate_record_hash L (stamped now1 r))
                               \<and> b = PStr (generate_record_hash L (stamped now2 r))))
     (add_metadata L now1 df) (add_metadata L now2 df)"
proof -
  have "paired (\<lambda>a b. \<exists>r \<in> set df. a = PStr (generate_record_hash L (stamped now1 r))
                               \<and> b = PStr (generate_record_hash L (stamped now2 r)))
          (set_cell ''record_hash'' (PStr (generate_record_hash L (stamped now1 r))) (stamped now1 r))
          (set_cell ''record_hash'' (PStr (generate_record_hash L (stamped now2 r))) (stamped now2 r))"
    if "r \<in> set df" for r
  proof -
    have "agree_off metadata_columns (stamped now1 r) (stamped now2 r)"
      unfolding stamped_def
      by (rule agree_off_set_cell_gen) (simp_all add: agree_off_refl metadata_columns_def)
    then have "agree_off metadata_columns
        (set_cell ''record_hash'' (PStr (generate_record_hash L (stamped now1 r))) (stamped now1 r))
        (set_cell ''record_hash'' (PStr (generate_record_hash L (stamped now2 r))) (stamped now2 r))"
      by (rule agree_off_set_cell_gen) (simp add: metadata_columns_def)
    with that show ?thesis by (auto simp: paired_def get_cell_set_cell)
  qed
  then show ?thesis
    by (simp add: add_metadata_def Let_def stamped_def list_all2_map1 list_all2_map2
          list_all2_same)
qed

lemma collision_freeD:
  "batch_collision_free L now df \<Longrightarrow> r \<in> set df \<Longrightarrow> r' \<in> set df \<Longrightarrow>
     generate_record_hash L (stamped now r) = generate_record_hash L (stamped now r') \<Longrightarrow>
     sorted_items (stamped now r) = sorted_items (stamped now r')"
  unfolding batch_collision_free_def
  by (drule bspec [where x = r], assumption, drule bspec [where x = r'], assumption,
      drule (1) mp, assumption)

lemma hash_pattern_clock_independent:
  assumes "batch_collision_free L now1 df" and "batch_collision_free L now2 df"
    and "r \<in> set df" and "r' \<in> set df"
  shows "(generate_record_hash L (stamped now1 r) = generate_record_hash L (stamped now1 r'))
       = (generate_record_hash L (stamped now2 r) = generate_record_hash L (stamped now2 r'))"
proof
  assume "generate_record_hash L (stamped now1 r) = generate_record_hash L (stamped now1 r')"
  with assms(1,3,4) have "sorted_items (stamped now1 r) = sorted_items (stamped now1 r')"
    by (rule collision_freeD)
  then have "sorted_items (stamped now2 r) = sorted_items (stamped now2 r')"
    by (rule content_equality_clock_independent)
  then show "generate_record_hash L (stamped now2 r) = generate_record_hash L (stamped now2 r')"
    by (simp only: generate_record_hash_def)
next
  assume "generate_record_hash L (stamped now2 r) = generate_record_hash L (stamped now2 r')"
  with assms(2,3,4) have "sorted_items (stamped now2 r) = sorted_items (stamped now2 r')"
    by (rule collision_freeD)
  then have "sorted_items (stamped now1 r) = sorted_items (stamped now1 r')"
    by (rule content_equality_clock_independent)
  then show "generate_record_hash L (stamped now1 r) = generate_record_hash L (stamped now1 r')"
    by (simp only: generate_record_hash_def)
qed

lemma schema_unbound_metadata:
  "\<forall>k \<in> metadata_columns. map_of (get_table_schema tt) k = None"
  by (simp add: get_table_schema_def metadata_columns_def)

text \<open>
  Claim C3, as the code has it. \<^verbatim>\<open>validate_and_clean_data\<close> reads the clock, writes
  the reading into every record and hashes it, so two executions on the same records
  and schema differ in the cells of \<^verbatim>\<open>upload_timestamp\<close> and \<^verbatim>\<open>record_hash\<close>. In
  everything else they are identical: when the digest confuses no two records of the
  batch in either execution, both raise the same exception, or both return, with
  accepted frames of the same rows in the same order and rejected frames of the same
  records in the same order, index and reason included, equal in every cell outside the
  two metadata columns.
\<close>

theorem validation_deterministic_up_to_clock:
  assumes "batch_collision_free L now1 df" and "batch_collision_free L now2 df"
  shows "same_outcome (validate_and_clean_data L now1 df table_name)
                      (validate_and_clean_data L now2 df table_name)"
proof (cases "df_empty df")
  case True
  then show ?thesis
    by (simp add: validate_and_clean_data_def same_outcome_def same_frame_def)
next
  case False
  define K where "K = (\<lambda>a b. \<exists>r \<in> set df. a = PStr (generate_record_hash L (stamped now1 r))
                               \<and> b = PStr (generate_record_hash L (stamped now2 r)))"
  define sch where "sch = get_table_schema (table_type_of table_name)"
  have bi: "(a = a') = (b = b')" if "K a b" and "K a' b'" for a b a' b'
  proof -
    from that(1) obtain r where r: "r \<in> set df"
      "a = PStr (generate_record_hash L (stamped now1 r))"
      "b = PStr (generate_record_hash L (stamped now2 r))"
      unfolding K_def by blast
    from that(2) obtain r' where r': "r' \<in> set df"
      "a' = PStr (generate_record_hash L (stamped now1 r'))"
      "b' = PStr (generate_record_hash L (stamped now2 r'))"
      unfolding K_def by blast
    from hash_pattern_clock_independent [OF assms r(1) r'(1)] show ?thesis
      by (simp add: r(2,3) r'(2,3))
  qed
  have pm: "list_all2 (paired K) (add_metadata L now1 df) (add_metadata L now2 df)"
    unfolding K_def by (rule add_metadata_paired)
  have un: "\<forall>k \<in> metadata_columns. map_of sch k = None"
    unfolding sch_def by (rule schema_unbound_metadata)
  note cr = check_rows_paired [OF pm un, of L 0]
  show ?thesis
  proof (cases "check_rows L sch 0 (add_metadata L now1 df)")
    case (Inl e)
    with cr have "check_rows L sch 0 (add_metadata L now2 df) = Inl e" by simp
    with Inl False show ?thesis
      by (simp add: validate_and_clean_data_def Let_def same_outcome_def sch_def)
  next
    case (Inr cd)
    obtain c1 d1 where cd: "cd = (c1, d1)" by (cases cd)
    with Inr cr obtain c2 d2 where
      r2: "check_rows L sch 0 (add_metadata L now2 df) = Inr (c2, d2)"
      and pc: "list_all2 (paired K) c1 c2"
      and ad: "list_all2 (agree_off metadata_columns) d1 d2"
      by auto
    have v1: "validate_and_clean_data L now1 df table_name
                = Inr (dedup_step (frame_or_none c1) (frame_or_none d1))"
      using False Inr cd by (simp add: validate_and_clean_data_def Let_def sch_def)
    have v2: "validate_and_clean_data L now2 df table_name
                = Inr (dedup_step (frame_or_none c2) (frame_or_none d2))"
      using False r2 by (simp add: validate_and_clean_data_def Let_def sch_def)
    obtain a1 r1 where e1: "dedup_step (frame_or_none c1) (frame_or_none d1) = (a1, r1)"
      by (cases "dedup_step (frame_or_none c1) (frame_or_none d1)")
    obtain a2 r2 where e2: "dedup_step (frame_or_none c2) (frame_or_none d2) = (a2, r2)"
      by (cases "dedup_step (frame_or_none c2) (frame_or_none d2)")
    from dedup_step_related [of K c1 c2 d1 d2] bi pc ad e1 e2
    have "same_frame a1 a2 \<and> same_frame r1 r2" by simp
    then show ?thesis unfolding v1 v2 e1 e2 by (simp add: same_outcome_def)
  qed
qed

theorem validation_deterministic_up_to_clock_witness:
  "batch_collision_free plain_lib 7 [tmb_good, tmb_low, tmb_good]
   \<and> batch_collision_free plain_lib 8 [tmb_good, tmb_low, tmb_good]
   \<and> (case validate_and_clean_data plain_lib 7 [tmb_good, tmb_low, tmb_good] ''tmb_data'' of
         Inr (Some accepted, Some rejected) \<Rightarrow>
           accepted = [tmb_good_cleaned]
           \<and> map (get_cell ''reason'') rejected
               = [PStr ''Invalid values in columns: TMB: Below minimum value 0'',
                  PStr ''Duplicate record'']
       | _ \<Rightarrow> False)
   \<and> same_outcome
         (validate_and_clean_data plain_lib 7 [tmb_good, tmb_low, tmb_good] ''tmb_data'')
         (validate_and_clean_data plain_lib 8 [tmb_good, tmb_low, tmb_good] ''tmb_data'')"
proof -
  have a: "batch_collision_free plain_lib 7 [tmb_good, tmb_low, tmb_good]" by code_simp
  have b: "batch_collision_free plain_lib 8 [tmb_good, tmb_low, tmb_good]" by code_simp
  have c: "case validate_and_clean_data plain_lib 7 [tmb_good, tmb_low, tmb_good] ''tmb_data'' of
         Inr (Some accepted, Some rejected) \<Rightarrow>
           accepted = [tmb_good_cleaned]
           \<and> map (get_cell ''reason'') rejected
               = [PStr ''Invalid values in columns: TMB: Below minimum value 0'',
                  PStr ''Duplicate record'']
       | _ \<Rightarrow> False"
    by code_simp
  from a b c validation_deterministic_up_to_clock [OF a b, of "''tmb_data''"]
  show ?thesis by (intro conjI)
qed

text \<open>
  The hypothesis on the digest cannot be dropped in this embedding, where the digest is
  a parameter: with a digest that confuses two records at one clock reading and not at
  the other, the duplicate step rejects a record in one run that it accepts in the
  other.
\<close>

lemma collision_freedom_needed:
  "\<not> same_outcome
       (validate_and_clean_data colliding_lib 7 [tmb_good, tmb_second] ''tmb_data'')
       (validate_and_clean_data colliding_lib 8 [tmb_good, tmb_second] ''tmb_data'')
   \<and> \<not> batch_collision_free colliding_lib 7 [tmb_good, tmb_second]"
  by code_simp

text \<open>
  The claim C3 as the specification words it fails: the same record set and schema,
  validated at two clock readings, give two different outputs.
\<close>

theorem validation_clock_counterexample:
  "validate_and_clean_data plain_lib 7 [tmb_good] ''tmb_data''
     \<noteq> validate_and_clean_data plain_lib 8 [tmb_good] ''tmb_data''"
  by code_simp

section \<open>Properties of the chunked upload\<close>

text \<open>
  For a positive chunk size the chunks are the consecutive slices of the frame: their
  concatenation is the frame, every chunk but the last has the chunk size, and no chunk
  is empty. When the database accepts every batch, the chunked path stores the frame as
  it was given, behind the rows the table had, and reports success.
\<close>

lemma concat_slices:
  "concat (map (\<lambda>i. slice_rows df i c) (map (\<lambda>k. k * c) [0..<m])) = take (m * c) df"
proof (induction m)
  case 0
  then show ?case by simp
next
  case (Suc m)
  have "take (m * c + c) df = take (m * c) df @ take c (drop (m * c) df)"
    by (rule take_add)
  with Suc show ?case by (simp add: slice_rows_def add.commute)
qed

lemma ceil_div_covers: "0 < c \<Longrightarrow> n \<le> (n + c - 1) div c * c" for n c :: nat
proof -
  assume c: "0 < c"
  define q where "q = (n + c - 1) div c"
  define r where "r = (n + c - 1) mod c"
  have "q * c + r = n + c - 1" by (simp add: q_def r_def)
  moreover have "n + c - 1 = n + (c - 1)" using c by simp
  moreover have "r < c" using c by (simp add: r_def)
  ultimately have "n \<le> q * c" by linarith
  then show ?thesis by (simp add: q_def)
qed

lemma make_chunks_concat:
  assumes "0 < c"
  shows "\<exists>chunks. make_chunks df (int c) = Inr chunks \<and> concat chunks = df"
proof -
  let ?m = "(length df + c - 1) div c"
  have "make_chunks df (int c)
          = Inr (map (\<lambda>i. slice_rows df i c) (map (\<lambda>k. k * c) [0..<?m]))"
    using assms by (simp add: make_chunks_def py_range_def)
  moreover have "concat (map (\<lambda>i. slice_rows df i c) (map (\<lambda>k. k * c) [0..<?m])) = df"
    using ceil_div_covers [OF assms, of "length df"] by (simp only: concat_slices) simp
  ultimately show ?thesis by blast
qed

lemma run_chunks_accepting:
  assumes "\<forall>old new. db_accepts L table_name old new"
  shows "list_all fst (fst (run_chunks L table_name st chunks))
       \<and> table_rows (snd (run_chunks L table_name st chunks)) table_name
           = table_rows st table_name @ concat chunks"
proof (induction chunks arbitrary: st)
  case Nil
  then show ?case by simp
next
  case (Cons c cs)
  define st1 where "st1 = st(table_name \<mapsto> table_rows st table_name @ c)"
  have p: "process_file_chunk L (c, table_name) st = ((True, None), st1)"
    using assms by (simp add: process_file_chunk_def to_sql_def st1_def)
  have t: "table_rows st1 table_name = table_rows st table_name @ c"
    by (simp add: table_rows_def st1_def)
  obtain rs st2 where r: "run_chunks L table_name st1 cs = (rs, st2)"
    by (cases "run_chunks L table_name st1 cs")
  from Cons.IH [of st1] r t have "list_all fst rs"
    and "table_rows st2 table_name = table_rows st table_name @ c @ concat cs"
    by simp_all
  with p r show ?case by simp
qed

lemma parallel_upload_chunked_raw:
  assumes "0 < c" and "c \<le> length df" and "\<forall>old new. db_accepts L table_name old new"
  shows "\<exists>st'. parallel_upload L now df table_name st (int c) = Inr (True, st')
              \<and> table_rows st' table_name = table_rows st table_name @ df"
proof -
  from make_chunks_concat [OF assms(1), of df] obtain chunks where
    m: "make_chunks df (int c) = Inr chunks" and cc: "concat chunks = df"
    by blast
  obtain results st' where r: "run_chunks L table_name st chunks = (results, st')"
    by (cases "run_chunks L table_name st chunks")
  from run_chunks_accepting [OF assms(3), of st chunks] r cc
  have "list_all fst results" and "table_rows st' table_name = table_rows st table_name @ df"
    by simp_all
  with assms(2) m r show ?thesis by (simp add: parallel_upload_def)
qed

lemma make_chunks_sizes:
  assumes "0 < c" and "make_chunks df (int c) = Inr chunks" and "i < length chunks"
  shows "chunks ! i = take c (drop (i * c) df)
       \<and> length (chunks ! i) = (if Suc i < length chunks then c else length df - i * c)
       \<and> chunks ! i \<noteq> []"
proof -
  define n where "n = length df"
  define m where "m = (n + c - 1) div c"
  have ch: "chunks = map (\<lambda>i. slice_rows df i c) (map (\<lambda>k. k * c) [0..<m])"
    using assms(1,2) by (simp add: make_chunks_def py_range_def m_def n_def)
  then have len: "length chunks = m" by simp
  with assms(3) have i: "i < m" by simp
  from ch i have nth: "chunks ! i = take c (drop (i * c) df)"
    by (simp add: slice_rows_def)
  have up: "m * c \<le> n + c - 1" by (simp add: m_def)
  have cov: "n \<le> m * c" unfolding m_def using assms(1) by (rule ceil_div_covers)
  from i have "Suc i \<le> m" by simp
  then have "Suc i * c \<le> m * c" by (rule mult_le_mono1)
  with up have "i * c + c \<le> n + c - 1" by simp
  with assms(1) have lt: "i * c < n" by linarith
  have full: "i * c + c \<le> n" if "Suc i < m"
  proof -
    from that have "Suc (Suc i) \<le> m" by simp
    then have "Suc (Suc i) * c \<le> m * c" by (rule mult_le_mono1)
    with up have "i * c + c + c \<le> n + c - 1" by simp
    with assms(1) show ?thesis by linarith
  qed
  have last: "n - i * c \<le> c" if "\<not> Suc i < m"
  proof -
    from that i have "m = Suc i" by simp
    with cov have "n \<le> i * c + c" by simp
    then show ?thesis by simp
  qed
  have "length (chunks ! i) = min c (n - i * c)" by (simp add: nth n_def)
  with full last have "length (chunks ! i) = (if Suc i < length chunks then c else n - i * c)"
    by (auto simp: len min_def)
  moreover have "chunks ! i \<noteq> []" using lt assms(1) by (simp add: nth n_def)
  ultimately show ?thesis using nth by (simp add: n_def)
qed

text \<open>
  Claim C1 at inputs where the code leaves it. \<^verbatim>\<open>parallel_upload\<close> validates only
  through \<^verbatim>\<open>upload_to_database\<close>, which it calls when the frame is shorter than the
  chunk size; otherwise the chunks of the frame as given go to \<^verbatim>\<open>to_sql\<close>. A record
  with a negative burden, which the validator rejects, is stored by the chunked path;
  and of two identical records, of which the validator rejects the second as a
  duplicate, both are stored.
\<close>

theorem parallel_upload_stores_unvalidated:
  "validate_and_clean_data plain_lib 7 [tmb_bad] ''tmb_data'' = Inr (None, Some [tmb_bad_dropped])
   \<and> (case parallel_upload plain_lib 7 [tmb_bad] ''tmb_data'' empty_store 1 of
         Inl e \<Rightarrow> False
       | Inr (ok, st) \<Rightarrow> ok \<and> st ''tmb_data'' = Some [tmb_bad])
   \<and> validate_and_clean_data plain_lib 7 [tmb_good, tmb_good] ''tmb_data''
       = Inr (Some [tmb_good_cleaned], Some [tmb_good_duplicate])
   \<and> (case parallel_upload plain_lib 7 [tmb_good, tmb_good] ''tmb_data'' empty_store 2 of
         Inl e \<Rightarrow> False
       | Inr (ok, st) \<Rightarrow> ok \<and> st ''tmb_data'' = Some [tmb_good, tmb_good])"
  by code_simp

text \<open>
  Claim C2 at inputs where the code leaves it. For one record, the chunk size 1 (the
  number of records) takes the chunked path and the chunk size 2 takes
  \<^verbatim>\<open>upload_to_database\<close>: the rejected record is stored with the first and not with
  the second, and a valid record is stored as given with the first and standardized,
  with the two metadata columns, with the second.
\<close>

theorem chunk_size_changes_persisted_set:
  "(case parallel_upload plain_lib 7 [tmb_bad] ''tmb_data'' empty_store 2 of
      Inl e \<Rightarrow> False
    | Inr (ok, st) \<Rightarrow> \<not> ok \<and> st ''tmb_data'' = None)
   \<and> (case parallel_upload plain_lib 7 [tmb_bad] ''tmb_data'' empty_store 1 of
         Inl e \<Rightarrow> False
       | Inr (ok, st) \<Rightarrow> ok \<and> st ''tmb_data'' = Some [tmb_bad])
   \<and> (case parallel_upload plain_lib 7 [tmb_good] ''tmb_data'' empty_store 2 of
         Inl e \<Rightarrow> False
       | Inr (ok, st) \<Rightarrow> ok \<and> st ''tmb_data'' = Some [tmb_good_cleaned])
   \<and> (case parallel_upload plain_lib 7 [tmb_good] ''tmb_data'' empty_store 1 of
         Inl e \<Rightarrow> False
       | Inr (ok, st) \<Rightarrow> ok \<and> st ''tmb_data'' = Some [tmb_good])"
  by code_simp

end
